theory Spec2Isabelle
  imports Main
begin

section \<open>JavaScript values, objects and HTTP responses\<close>

text \<open>
  The handlers exchange JSON-like values. A string is the list of the bytes of its UTF-8
  encoding; a \<open>Date\<close> is its time value in milliseconds; a number the program
  computes is an integer (\<open>JNum\<close>), a number read from JSON text keeps its literal
  (\<open>JNumLit\<close>). An object is the list of its properties in insertion order.
\<close>

datatype jsval =
    JUndefined
  | JNull
  | JBool bool
  | JNum int
  | JNumLit string
  | JStr string
  | JDate int
  | JArr "jsval list"
  | JObj "(string \<times> jsval) list"

type_synonym obj = "(string \<times> jsval) list"

text \<open>
  A number read from JSON text is the double nearest to what its literal
  \<open>-? digits (. digits)? ([eE] [+-]? digits)?\<close> denotes. That double is zero iff the
  literal denotes at most \<open>2^-1075\<close>, half the least positive double: a mantissa of
  zeros only, or \<open>m * 10^e\<close> with \<open>e < 0\<close> and \<open>m * 2^1075 \<le> 10^-e\<close>.
\<close>

definition digits_value :: "string \<Rightarrow> nat" where
  "digits_value s =
     foldl (\<lambda>a c. a * 10 + (of_char c - 48)) 0
       (filter (\<lambda>c. 48 \<le> (of_char c :: nat) \<and> (of_char c :: nat) \<le> 57) s)"

definition zero_literal :: "string \<Rightarrow> bool" where
  "zero_literal l =
     (let mantissa = takeWhile (\<lambda>c. c \<noteq> CHR ''e'' \<and> c \<noteq> CHR ''E'') l;
          exponent = drop (Suc (length mantissa)) l;
          m = digits_value mantissa;
          fraction = dropWhile (\<lambda>c. c \<noteq> CHR ''.'') mantissa;
          e = (if take 1 exponent = ''-'' then - int (digits_value exponent)
               else int (digits_value exponent))
              - int (length (filter (\<lambda>c. c \<noteq> CHR ''.'') fraction))
      in if m = 0 then True
         else if e < 0 then int m * 2 ^ 1075 \<le> 10 ^ nat (- e)
         else False)"

text \<open>\<open>ToBoolean\<close>: what \<open>!x\<close>, \<open>x || y\<close>, \<open>x ? a : b\<close> and \<open>if (x)\<close> test.\<close>

fun truthy :: "jsval \<Rightarrow> bool" where
  "truthy JUndefined = False"
| "truthy JNull = False"
| "truthy (JBool b) = b"
| "truthy (JNum n) = (n \<noteq> 0)"
| "truthy (JNumLit l) = (\<not> zero_literal l)"
| "truthy (JStr s) = (s \<noteq> [])"
| "truthy (JDate t) = True"
| "truthy (JArr xs) = True"
| "truthy (JObj kvs) = True"

definition js_or :: "jsval \<Rightarrow> jsval \<Rightarrow> jsval" where
  "js_or a b = (if truthy a then a else b)"

text \<open>
  Optional strings: a query parameter (\<open>undefined\<close> when not supplied), a nullable
  string field of a document, an optional property of an upstream answer.
\<close>

definition truthy_str :: "string option \<Rightarrow> bool" where
  "truthy_str v = (case v of None \<Rightarrow> False | Some s \<Rightarrow> s \<noteq> [])"

definition or_str :: "string option \<Rightarrow> string option \<Rightarrow> string option" where
  "or_str a b = (if truthy_str a then a else b)"

definition or_default :: "string option \<Rightarrow> string \<Rightarrow> string" where
  "or_default a d = (case a of None \<Rightarrow> d | Some s \<Rightarrow> if s = [] then d else s)"

definition str_val :: "string option \<Rightarrow> jsval" where
  "str_val v = (case v of None \<Rightarrow> JUndefined | Some s \<Rightarrow> JStr s)"

definition nullable_str :: "string option \<Rightarrow> jsval" where
  "nullable_str v = (case v of None \<Rightarrow> JNull | Some s \<Rightarrow> JStr s)"

definition nullable_date :: "int option \<Rightarrow> jsval" where
  "nullable_date v = (case v of None \<Rightarrow> JNull | Some t \<Rightarrow> JDate t)"

text \<open>Property read, property write and object spread \<open>{...a, ...b}\<close>.\<close>

definition obj_get :: "obj \<Rightarrow> string \<Rightarrow> jsval" where
  "obj_get kvs k = (case map_of kvs k of None \<Rightarrow> JUndefined | Some v \<Rightarrow> v)"

fun obj_set :: "string \<Rightarrow> jsval \<Rightarrow> obj \<Rightarrow> obj" where
  "obj_set k v [] = [(k, v)]"
| "obj_set k v (p # ps) = (if fst p = k then (k, v) # ps else p # obj_set k v ps)"

fun obj_spread :: "obj \<Rightarrow> obj \<Rightarrow> obj" where
  "obj_spread a [] = a"
| "obj_spread a (p # ps) = obj_spread (obj_set (fst p) (snd p) a) ps"

text \<open>An HTTP answer: \<open>res.status(n).json(body)\<close>; \<open>res.json(body)\<close> answers 200.\<close>

record response =
  status :: nat
  body :: obj

definition error_response :: "nat \<Rightarrow> string \<Rightarrow> response" where
  "error_response n msg =
     \<lparr>status = n, body = [(''success'', JBool False), (''error'', JStr msg)]\<rparr>"

text \<open>The query string of a request: each parameter a string, or absent.\<close>

type_synonym query = "string \<Rightarrow> string option"

text \<open>
  A thrown error: its \<open>message\<close>, and for an HTTP client error that carries an upstream
  answer (\<open>error.response\<close>) the text at \<open>response.data.error.message\<close>, when there.
\<close>

record js_error =
  message :: string
  response_message :: "string option option"


section \<open>The credential (models/UserToken.js)\<close>

record user_token =
  userId :: string
  accessToken :: string
  refreshToken :: "string option"
  expiresAt :: "int option"
  tokenType :: string
  adAccountId :: "string option"
  createdAt :: int
  updatedAt :: int

definition isExpired :: "int \<Rightarrow> user_token \<Rightarrow> bool" where
  "isExpired now t = (case expiresAt t of None \<Rightarrow> False | Some e \<Rightarrow> now \<ge> e)"

definition needsRefresh :: "int \<Rightarrow> user_token \<Rightarrow> bool" where
  "needsRefresh now t =
     (case expiresAt t of None \<Rightarrow> False
      | Some e \<Rightarrow> (let fiveMinutes = 5 * 60 * 1000 in now \<ge> e - fiveMinutes))"


section \<open>The upstream client (services/metaApi.js)\<close>

definition GRAPH_API_BASE :: string where
  "GRAPH_API_BASE = ''https://graph.facebook.com/v18.0''"

text \<open>
  \<open>axios.get(url, {params})\<close> is a parameter of the model: it answers with the body of
  the upstream answer or throws.
\<close>

type_synonym 'a http_get = "string \<Rightarrow> obj \<Rightarrow> js_error + 'a"

definition makeGraphApiRequest ::
  "'a http_get \<Rightarrow> string \<Rightarrow> string \<Rightarrow> obj \<Rightarrow> js_error + 'a" where
  "makeGraphApiRequest axios_get token endpoint params =
     (case axios_get (GRAPH_API_BASE @ endpoint)
             (obj_spread [(''access_token'', JStr token)] params) of
        Inr answer \<Rightarrow> Inr answer
      | Inl error \<Rightarrow>
          (case response_message error of
             Some m \<Rightarrow>
               Inl \<lparr>message = ''Meta API Error: '' @ or_default m (message error),
                    response_message = None\<rparr>
           | None \<Rightarrow> Inl error))"

text \<open>The account id as the upstream wants it (the local \<open>accountId\<close> of each operation).\<close>

definition accountId :: "string \<Rightarrow> string" where
  "accountId adAccount =
     (if take 4 adAccount = ''act_'' then adAccount else ''act_'' @ adAccount)"

definition getAdAccounts :: "obj http_get \<Rightarrow> string \<Rightarrow> js_error + obj" where
  "getAdAccounts axios_get token =
     makeGraphApiRequest axios_get token ''/me/adaccounts''
       [(''fields'', JStr ''id,name,account_id,currency,timezone_name'')]"

definition getCampaigns :: "obj http_get \<Rightarrow> string \<Rightarrow> string \<Rightarrow> obj \<Rightarrow> js_error + obj" where
  "getCampaigns axios_get token adAccount params =
     makeGraphApiRequest axios_get token (''/'' @ accountId adAccount @ ''/campaigns'')
       (obj_spread
          [(''fields'', JStr ''id,name,status,objective,daily_budget,lifetime_budget,created_time,updated_time''),
           (''limit'', js_or (obj_get params ''limit'') (JNum 25))]
          params)"

definition getAdSets ::
  "obj http_get \<Rightarrow> string \<Rightarrow> string \<Rightarrow> string option \<Rightarrow> obj \<Rightarrow> js_error + obj" where
  "getAdSets axios_get token adAccount campaignId params =
     (let endpoint =
            (if truthy_str campaignId then ''/'' @ or_default campaignId [] @ ''/adsets''
             else ''/'' @ accountId adAccount @ ''/adsets'')
      in makeGraphApiRequest axios_get token endpoint
           (obj_spread
              [(''fields'', JStr ''id,name,status,campaign_id,daily_budget,lifetime_budget,billing_event,optimization_goal,created_time''),
               (''limit'', js_or (obj_get params ''limit'') (JNum 25))]
              params))"

text \<open>
  \<open>getSpend\<close>: \<open>JSON.stringify(params.timeRange)\<close> is a parameter, since only the
  route decides what a time range is.
\<close>

definition getSpend ::
  "(jsval \<Rightarrow> string) \<Rightarrow> obj http_get \<Rightarrow> string \<Rightarrow> string \<Rightarrow> obj \<Rightarrow> js_error + obj" where
  "getSpend stringify axios_get token adAccount params =
     (let datePreset = js_or (obj_get params ''datePreset'') (JStr ''last_30d'');
          level = js_or (obj_get params ''level'') (JStr ''campaign'')
      in makeGraphApiRequest axios_get token (''/'' @ accountId adAccount @ ''/insights'')
           (obj_spread
              [(''level'', level),
               (''date_preset'', datePreset),
               (''fields'', JStr ''campaign_id,campaign_name,spend,impressions,clicks,ctr,cpc,cpp,cpm,reach,frequency,actions''),
               (''time_range'',
                  (if truthy (obj_get params ''timeRange'')
                   then JStr (stringify (obj_get params ''timeRange'')) else JUndefined)),
               (''limit'', js_or (obj_get params ''limit'') (JNum 25))]
              params))"

text \<open>Lead-generation forms and leads, as the upstream lists them.\<close>

record form =
  form_id :: string
  form_name :: string

record forms_response =
  forms_data :: "form list option"
  forms_paging :: jsval

record leads_response =
  leads_data :: "obj list option"

record leads_result =
  data :: "obj list"
  paging :: jsval

definition tagLead :: "form \<Rightarrow> obj \<Rightarrow> obj" where
  "tagLead f lead =
     obj_spread lead [(''form_id'', JStr (form_id f)), (''form_name'', JStr (form_name f))]"

text \<open>
  One pass of the \<open>for\<close> loop over the forms: the request for the leads of a form,
  and what the \<open>try\<close> block pushes onto \<open>leads\<close> (nothing when the request throws
  or the answer has no \<open>data\<close>).
\<close>

definition fetchFormLeads ::
  "leads_response http_get \<Rightarrow> string \<Rightarrow> form \<Rightarrow> js_error + leads_response" where
  "fetchFormLeads axios_get token f =
     makeGraphApiRequest axios_get token (''/'' @ form_id f @ ''/leads'')
       [(''fields'', JStr ''id,created_time,field_data''), (''limit'', JNum 10)]"

definition pushedLeads :: "leads_response http_get \<Rightarrow> string \<Rightarrow> form \<Rightarrow> obj list" where
  "pushedLeads axios_get token f =
     (case fetchFormLeads axios_get token f of
        Inl error \<Rightarrow> []
      | Inr formLeads \<Rightarrow>
          (case leads_data formLeads of None \<Rightarrow> [] | Some ls \<Rightarrow> map (tagLead f) ls))"

fun collectLeads ::
  "leads_response http_get \<Rightarrow> string \<Rightarrow> form list \<Rightarrow> obj list \<Rightarrow> obj list" where
  "collectLeads axios_get token [] leads = leads"
| "collectLeads axios_get token (f # forms) leads =
     collectLeads axios_get token forms (leads @ pushedLeads axios_get token f)"

definition getLeads ::
  "forms_response http_get \<Rightarrow> leads_response http_get \<Rightarrow> string \<Rightarrow> string \<Rightarrow> obj
     \<Rightarrow> js_error + leads_result" where
  "getLeads forms_get leads_get token adAccount params =
     (case makeGraphApiRequest forms_get token (''/'' @ accountId adAccount @ ''/leadgen_forms'')
             [(''fields'', JStr ''id,name,status''),
              (''limit'', js_or (obj_get params ''limit'') (JNum 25))] of
        Inl error \<Rightarrow> Inl error
      | Inr formsResponse \<Rightarrow>
          Inr \<lparr>data =
                 (case forms_data formsResponse of
                    None \<Rightarrow> []
                  | Some fs \<Rightarrow>
                      if length fs > 0 then collectLeads leads_get token (take 5 fs) [] else []),
               paging = forms_paging formsResponse\<rparr>)"


section \<open>The request gate and the data endpoints (routes/meta.js)\<close>

text \<open>
  What the routes need from outside: the credential store's \<open>findOne({userId})\<close>, which
  may throw; the clock; the upstream.
\<close>

record meta_env =
  findOne :: "string \<Rightarrow> js_error + user_token option"
  date_now :: int
  list_get :: "obj http_get"
  forms_get :: "forms_response http_get"
  leads_get :: "leads_response http_get"

text \<open>What the gate attaches to the request before \<open>next()\<close>.\<close>

record req_ctx =
  req_userToken :: user_token
  req_accessToken :: string
  req_adAccountId :: "string option"

definition validateUserAndToken :: "meta_env \<Rightarrow> query \<Rightarrow> response + req_ctx" where
  "validateUserAndToken env q =
     (case q ''userId'' of
        None \<Rightarrow> Inl (error_response 400 ''userId is required'')
      | Some uid \<Rightarrow>
          if uid = [] then Inl (error_response 400 ''userId is required'')
          else
            (case findOne env uid of
               Inl error \<Rightarrow> Inl (error_response 500 ''Failed to validate authentication'')
             | Inr None \<Rightarrow>
                 Inl (error_response 401
                        ''User not authenticated. Please complete OAuth flow first.'')
             | Inr (Some userToken) \<Rightarrow>
                 if isExpired (date_now env) userToken
                 then Inl \<lparr>status = 401,
                           body = [(''success'', JBool False),
                                   (''error'', JStr ''Access token expired. Please re-authenticate.''),
                                   (''expired'', JBool True)]\<rparr>
                 else Inr \<lparr>req_userToken = userToken,
                           req_accessToken = accessToken userToken,
                           req_adAccountId =
                             or_str (adAccountId userToken) (q ''adAccountId'')\<rparr>))"

definition limit_or_25 :: "query \<Rightarrow> jsval" where
  "limit_or_25 q = js_or (str_val (q ''limit'')) (JNum 25)"

definition upstream_failure :: "js_error \<Rightarrow> string \<Rightarrow> response" where
  "upstream_failure error fallback =
     error_response 500 (if message error = [] then fallback else message error)"

definition meta_campaigns :: "meta_env \<Rightarrow> query \<Rightarrow> response" where
  "meta_campaigns env q =
     (case validateUserAndToken env q of
        Inl rejected \<Rightarrow> rejected
      | Inr req \<Rightarrow>
          (case req_adAccountId req of
             None \<Rightarrow>
               error_response 400
                 ''adAccountId is required. Provide it in query params or complete OAuth to auto-detect.''
           | Some acct \<Rightarrow>
               if acct = [] then
                 error_response 400
                   ''adAccountId is required. Provide it in query params or complete OAuth to auto-detect.''
               else
                 (case getCampaigns (list_get env) (req_accessToken req) acct
                         [(''limit'', limit_or_25 q), (''fields'', str_val (q ''fields''))] of
                    Inl error \<Rightarrow> upstream_failure error ''Failed to fetch campaigns''
                  | Inr campaigns \<Rightarrow>
                      \<lparr>status = 200,
                       body = [(''success'', JBool True),
                               (''data'', js_or (obj_get campaigns ''data'') (JObj campaigns)),
                               (''paging'', obj_get campaigns ''paging'')]\<rparr>)))"

definition meta_leads :: "meta_env \<Rightarrow> query \<Rightarrow> response" where
  "meta_leads env q =
     (case validateUserAndToken env q of
        Inl rejected \<Rightarrow> rejected
      | Inr req \<Rightarrow>
          (case req_adAccountId req of
             None \<Rightarrow> error_response 400 ''adAccountId is required''
           | Some acct \<Rightarrow>
               if acct = [] then error_response 400 ''adAccountId is required''
               else
                 (case getLeads (forms_get env) (leads_get env) (req_accessToken req) acct
                         [(''limit'', limit_or_25 q)] of
                    Inl error \<Rightarrow> upstream_failure error ''Failed to fetch leads''
                  | Inr leads \<Rightarrow>
                      \<lparr>status = 200,
                       body = [(''success'', JBool True),
                               (''data'', JArr (map JObj (data leads))),
                               (''paging'', paging leads)]\<rparr>)))"


section \<open>Runtime functions the OAuth flow relies on\<close>

subsection \<open>Base64: \<open>buf.toString('base64')\<close> and \<open>Buffer.from(s, 'base64')\<close>\<close>

definition b64_digit :: "nat \<Rightarrow> char" where
  "b64_digit n =
     (if n < 26 then char_of (65 + n)
      else if n < 52 then char_of (71 + n)
      else if n < 62 then char_of (n - 4)
      else if n = 62 then CHR ''+'' else CHR ''/'')"

fun base64_encode :: "string \<Rightarrow> string" where
  "base64_encode [] = []"
| "base64_encode [a] =
     (let x = (of_char a :: nat)
      in [b64_digit (x div 4), b64_digit (x mod 4 * 16), CHR ''='', CHR ''=''])"
| "base64_encode [a, b] =
     (let x = (of_char a :: nat); y = (of_char b :: nat)
      in [b64_digit (x div 4), b64_digit (x mod 4 * 16 + y div 16),
          b64_digit (y mod 16 * 4), CHR ''=''])"
| "base64_encode (a # b # c # rest) =
     (let x = (of_char a :: nat); y = (of_char b :: nat); z = (of_char c :: nat)
      in b64_digit (x div 4) # b64_digit (x mod 4 * 16 + y div 16) #
         b64_digit (y mod 16 * 4 + z div 64) # b64_digit (z mod 64) # base64_encode rest)"

text \<open>
  The decoder is the forgiving one of the runtime. It goes through the UTF-16 code units
  of the string and looks at the low byte of each; it reads both alphabets, skips every
  byte that is no digit, and stops at the first \<open>=\<close>.
\<close>

text \<open>The UTF-16 code units of a string, which is held as well-formed UTF-8.\<close>

fun code_units :: "string \<Rightarrow> nat list" where
  "code_units [] = []"
| "code_units (b # bs) =
     (let k = (of_char b :: nat)
      in if k < 0x80 then k # code_units bs
         else if k < 0xE0 then
           (case bs of
              c1 # r \<Rightarrow> (k mod 32 * 64 + of_char c1 mod 64) # code_units r
            | _ \<Rightarrow> [0xFFFD])
         else if k < 0xF0 then
           (case bs of
              c1 # c2 # r \<Rightarrow>
                (k mod 16 * 4096 + of_char c1 mod 64 * 64 + of_char c2 mod 64) # code_units r
            | _ \<Rightarrow> [0xFFFD])
         else
           (case bs of
              c1 # c2 # c3 # r \<Rightarrow>
                (let cp = k mod 8 * 262144 + of_char c1 mod 64 * 4096 +
                          of_char c2 mod 64 * 64 + of_char c3 mod 64
                 in (0xD800 + (cp - 0x10000) div 1024) #
                    (0xDC00 + (cp - 0x10000) mod 1024) # code_units r)
            | _ \<Rightarrow> [0xFFFD]))"

definition low_bytes :: "string \<Rightarrow> string" where
  "low_bytes s = map char_of (code_units s)"

definition unbase64 :: "char \<Rightarrow> nat option" where
  "unbase64 c =
     (let k = (of_char c :: nat)
      in if 65 \<le> k \<and> k \<le> 90 then Some (k - 65)
         else if 97 \<le> k \<and> k \<le> 122 then Some (k - 71)
         else if 48 \<le> k \<and> k \<le> 57 then Some (k + 4)
         else if c = CHR ''+'' \<or> c = CHR ''-'' then Some 62
         else if c = CHR ''/'' \<or> c = CHR ''_'' then Some 63
         else None)"

fun sextets :: "string \<Rightarrow> nat list" where
  "sextets [] = []"
| "sextets (c # cs) =
     (if c = CHR ''='' then []
      else (case unbase64 c of None \<Rightarrow> sextets cs | Some v \<Rightarrow> v # sextets cs))"

fun sextets_bytes :: "nat list \<Rightarrow> string" where
  "sextets_bytes (p # q # r # s # rest) =
     char_of (p * 4 + q div 16) # char_of (q mod 16 * 16 + r div 4) #
     char_of (r mod 4 * 64 + s) # sextets_bytes rest"
| "sextets_bytes [p, q, r] = [char_of (p * 4 + q div 16), char_of (q mod 16 * 16 + r div 4)]"
| "sextets_bytes [p, q] = [char_of (p * 4 + q div 16)]"
| "sextets_bytes [p] = []"
| "sextets_bytes [] = []"

definition base64_decode :: "string \<Rightarrow> string" where
  "base64_decode s = sextets_bytes (sextets (low_bytes s))"

subsection \<open>UTF-8: \<open>Buffer.from(str)\<close> and \<open>buf.toString()\<close>\<close>

text \<open>
  A string is held as its UTF-8 bytes, so \<open>Buffer.from(str)\<close> hands the bytes over as
  they are. \<open>buf.toString()\<close> decodes any bytes: a well-formed sequence is kept, every
  maximal ill-formed part becomes U+FFFD.
\<close>

definition utf8_bytes :: "string \<Rightarrow> string" where
  "utf8_bytes str = str"

definition in_range :: "nat \<Rightarrow> nat \<Rightarrow> char \<Rightarrow> bool" where
  "in_range lo hi c = (lo \<le> of_char c \<and> (of_char c :: nat) \<le> hi)"

definition replacement :: string where
  "replacement = [CHR 0xEF, CHR 0xBF, CHR 0xBD]"

fun utf8_toString :: "string \<Rightarrow> string" where
  "utf8_toString [] = []"
| "utf8_toString (b # bs) =
     (let k = (of_char b :: nat)
      in if k < 0x80 then b # utf8_toString bs
         else if 0xC2 \<le> k \<and> k \<le> 0xDF then
           (case bs of
              [] \<Rightarrow> replacement
            | c1 # r1 \<Rightarrow>
                if in_range 0x80 0xBF c1 then b # c1 # utf8_toString r1
                else replacement @ utf8_toString bs)
         else if 0xE0 \<le> k \<and> k \<le> 0xEF then
           (case bs of
              [] \<Rightarrow> replacement
            | c1 # r1 \<Rightarrow>
                if in_range (if k = 0xE0 then 0xA0 else 0x80) (if k = 0xED then 0x9F else 0xBF) c1
                then
                  (case r1 of
                     [] \<Rightarrow> replacement
                   | c2 # r2 \<Rightarrow>
                       if in_range 0x80 0xBF c2 then b # c1 # c2 # utf8_toString r2
                       else replacement @ utf8_toString r1)
                else replacement @ utf8_toString bs)
         else if 0xF0 \<le> k \<and> k \<le> 0xF4 then
           (case bs of
              [] \<Rightarrow> replacement
            | c1 # r1 \<Rightarrow>
                if in_range (if k = 0xF0 then 0x90 else 0x80) (if k = 0xF4 then 0x8F else 0xBF) c1
                then
                  (case r1 of
                     [] \<Rightarrow> replacement
                   | c2 # r2 \<Rightarrow>
                       if in_range 0x80 0xBF c2 then
                         (case r2 of
                            [] \<Rightarrow> replacement
                          | c3 # r3 \<Rightarrow>
                              if in_range 0x80 0xBF c3 then b # c1 # c2 # c3 # utf8_toString r3
                              else replacement @ utf8_toString r2)
                       else replacement @ utf8_toString r1)
                else replacement @ utf8_toString bs)
         else replacement @ utf8_toString bs)"

text \<open>The bytes of one code point (a lone surrogate keeps its three-byte form).\<close>

definition utf8_of :: "nat \<Rightarrow> string" where
  "utf8_of cp =
     (if cp < 0x80 then [char_of cp]
      else if cp < 0x800 then [char_of (0xC0 + cp div 64), char_of (0x80 + cp mod 64)]
      else if cp < 0x10000 then
        [char_of (0xE0 + cp div 4096), char_of (0x80 + cp div 64 mod 64), char_of (0x80 + cp mod 64)]
      else
        [char_of (0xF0 + cp div 262144), char_of (0x80 + cp div 4096 mod 64),
         char_of (0x80 + cp div 64 mod 64), char_of (0x80 + cp mod 64)])"

subsection \<open>\<open>encodeURIComponent\<close>\<close>

definition hex_upper :: "nat \<Rightarrow> char" where
  "hex_upper n = (if n < 10 then char_of (48 + n) else char_of (55 + n))"

definition is_alnum :: "char \<Rightarrow> bool" where
  "is_alnum c = (in_range 48 57 c \<or> in_range 65 90 c \<or> in_range 97 122 c)"

definition encodeURIComponent :: "string \<Rightarrow> string" where
  "encodeURIComponent s =
     concat (map (\<lambda>c. if is_alnum c \<or> c \<in> set ''-_.!~*'' \<or> c = CHR 0x27 \<or> c \<in> set ''()''
                      then [c]
                      else [CHR ''%'', hex_upper (of_char c div 16), hex_upper (of_char c mod 16)]) s)"

subsection \<open>\<open>JSON.stringify\<close> of the state envelope\<close>

definition hex_digit :: "nat \<Rightarrow> char" where
  "hex_digit n = (if n < 10 then char_of (48 + n) else char_of (87 + n))"

definition quote_char :: "char \<Rightarrow> string" where
  "quote_char c =
     (if c = CHR 0x08 then [CHR 0x5C, CHR ''b'']
      else if c = CHR 0x09 then [CHR 0x5C, CHR ''t'']
      else if c = CHR 0x0A then [CHR 0x5C, CHR ''n'']
      else if c = CHR 0x0C then [CHR 0x5C, CHR ''f'']
      else if c = CHR 0x0D then [CHR 0x5C, CHR ''r'']
      else if c = CHR 0x22 then [CHR 0x5C, CHR 0x22]
      else if c = CHR 0x5C then [CHR 0x5C, CHR 0x5C]
      else if (of_char c :: nat) < 0x20 then
        [CHR 0x5C, CHR ''u'', CHR ''0'', CHR ''0'',
         hex_digit (of_char c div 16), hex_digit (of_char c mod 16)]
      else [c])"

definition QuoteJSONString :: "string \<Rightarrow> string" where
  "QuoteJSONString s = CHR 0x22 # concat (map quote_char s) @ [CHR 0x22]"

text \<open>\<open>JSON.stringify({ userId })\<close> for a string \<open>userId\<close>.\<close>

definition stringify_userId :: "string \<Rightarrow> string" where
  "stringify_userId uid = ''{'' @ QuoteJSONString ''userId'' @ '':'' @ QuoteJSONString uid @ ''}''"

subsection \<open>\<open>JSON.parse\<close>\<close>

definition is_ws :: "char \<Rightarrow> bool" where
  "is_ws c = (c = CHR '' '' \<or> c = CHR 0x09 \<or> c = CHR 0x0A \<or> c = CHR 0x0D)"

definition skip_ws :: "string \<Rightarrow> string" where
  "skip_ws s = dropWhile is_ws s"

definition hex_val :: "char \<Rightarrow> nat option" where
  "hex_val c =
     (let k = (of_char c :: nat)
      in if 48 \<le> k \<and> k \<le> 57 then Some (k - 48)
         else if 97 \<le> k \<and> k \<le> 102 then Some (k - 87)
         else if 65 \<le> k \<and> k \<le> 70 then Some (k - 55)
         else None)"

definition hex4 :: "char \<Rightarrow> char \<Rightarrow> char \<Rightarrow> char \<Rightarrow> nat option" where
  "hex4 a b c d =
     (case (hex_val a, hex_val b, hex_val c, hex_val d) of
        (Some x, Some y, Some z, Some w) \<Rightarrow> Some (((x * 16 + y) * 16 + z) * 16 + w)
      | _ \<Rightarrow> None)"

definition unescape :: "char \<Rightarrow> char option" where
  "unescape e =
     (if e = CHR 0x22 then Some (CHR 0x22)
      else if e = CHR 0x5C then Some (CHR 0x5C)
      else if e = CHR ''/'' then Some (CHR ''/'')
      else if e = CHR ''b'' then Some (CHR 0x08)
      else if e = CHR ''f'' then Some (CHR 0x0C)
      else if e = CHR ''n'' then Some (CHR 0x0A)
      else if e = CHR ''r'' then Some (CHR 0x0D)
      else if e = CHR ''t'' then Some (CHR 0x09)
      else None)"

text \<open>
  The characters of a string literal, read after its opening quote up to the closing one:
  a byte of the text, or the code unit a \<open>\uXXXX\<close> escape names.
\<close>

datatype item = Raw char | Unit nat

fun string_items :: "string \<Rightarrow> (item list \<times> string) option" where
  "string_items [] = None"
| "string_items (c # cs) =
     (if c = CHR 0x22 then Some ([], cs)
      else if c = CHR 0x5C then
        (case cs of
           [] \<Rightarrow> None
         | e # r \<Rightarrow>
             if e = CHR ''u'' then
               (case r of
                  h1 # h2 # h3 # h4 # r' \<Rightarrow>
                    (case hex4 h1 h2 h3 h4 of
                       None \<Rightarrow> None
                     | Some u \<Rightarrow>
                         (case string_items r' of
                            None \<Rightarrow> None
                          | Some (its, rest) \<Rightarrow> Some (Unit u # its, rest)))
                | _ \<Rightarrow> None)
             else
               (case unescape e of
                  None \<Rightarrow> None
                | Some ch \<Rightarrow>
                    (case string_items r of
                       None \<Rightarrow> None
                     | Some (its, rest) \<Rightarrow> Some (Raw ch # its, rest))))
      else if (of_char c :: nat) < 0x20 then None
      else
        (case string_items cs of
           None \<Rightarrow> None
         | Some (its, rest) \<Rightarrow> Some (Raw c # its, rest)))"

text \<open>The text of the literal: two escapes that form a surrogate pair are one code point.\<close>

fun render :: "item list \<Rightarrow> string" where
  "render [] = []"
| "render (Raw c # its) = c # render its"
| "render (Unit h # Unit l # its) =
     (if 0xD800 \<le> h \<and> h < 0xDC00 \<and> 0xDC00 \<le> l \<and> l < 0xE000
      then utf8_of (0x10000 + (h - 0xD800) * 0x400 + (l - 0xDC00)) @ render its
      else utf8_of h @ render (Unit l # its))"
| "render (Unit u # its) = utf8_of u @ render its"

definition is_digit :: "char \<Rightarrow> bool" where
  "is_digit c = in_range 48 57 c"

text \<open>A number: \<open>-? (0 | [1-9][0-9]*) (. [0-9]+)? ([eE] [+-]? [0-9]+)?\<close>, kept as written.\<close>

definition int_part :: "string \<Rightarrow> (string \<times> string) option" where
  "int_part s =
     (case s of
        [] \<Rightarrow> None
      | c # r \<Rightarrow>
          if c = CHR ''0'' then Some ([c], r)
          else if is_digit c then Some (takeWhile is_digit s, dropWhile is_digit s)
          else None)"

definition frac_part :: "string \<Rightarrow> (string \<times> string) option" where
  "frac_part s =
     (case s of
        [] \<Rightarrow> Some ([], s)
      | c # r \<Rightarrow>
          if c = CHR ''.'' then
            (if takeWhile is_digit r = [] then None
             else Some (c # takeWhile is_digit r, dropWhile is_digit r))
          else Some ([], s))"

definition exp_part :: "string \<Rightarrow> (string \<times> string) option" where
  "exp_part s =
     (case s of
        [] \<Rightarrow> Some ([], s)
      | c # r \<Rightarrow>
          if c = CHR ''e'' \<or> c = CHR ''E'' then
            (let sign = (case r of [] \<Rightarrow> [] | g # _ \<Rightarrow> if g = CHR ''+'' \<or> g = CHR ''-'' then [g] else []);
                 r1 = drop (length sign) r
             in if takeWhile is_digit r1 = [] then None
                else Some (c # sign @ takeWhile is_digit r1, dropWhile is_digit r1))
          else Some ([], s))"

definition number_literal :: "string \<Rightarrow> (string \<times> string) option" where
  "number_literal s =
     (let sign = (case s of [] \<Rightarrow> [] | c # _ \<Rightarrow> if c = CHR ''-'' then [c] else [])
      in case int_part (drop (length sign) s) of
           None \<Rightarrow> None
         | Some (i, s1) \<Rightarrow>
             (case frac_part s1 of
                None \<Rightarrow> None
              | Some (f, s2) \<Rightarrow>
                  (case exp_part s2 of
                     None \<Rightarrow> None
                   | Some (e, s3) \<Rightarrow> Some (sign @ i @ f @ e, s3))))"

text \<open>
  Values, the elements of an array after \<open>[\<close>, the members of an object after \<open>{\<close>.
  The first argument bounds the number of nested calls; \<open>JSON_parse\<close> starts with more
  than a text of that length needs (lemma \<open>JSON_parse_fuel\<close>). \<open>None\<close> is the
  \<open>SyntaxError\<close>.
\<close>

fun parse_value :: "nat \<Rightarrow> string \<Rightarrow> (jsval \<times> string) option"
  and parse_elements :: "nat \<Rightarrow> string \<Rightarrow> (jsval list \<times> string) option"
  and parse_members :: "nat \<Rightarrow> string \<Rightarrow> (obj \<times> string) option" where
  "parse_value 0 s = None"
| "parse_value (Suc n) s =
     (case s of
        [] \<Rightarrow> None
      | c # cs \<Rightarrow>
          if c = CHR ''{'' then
            (case skip_ws cs of
               [] \<Rightarrow> None
             | d # ds \<Rightarrow>
                 if d = CHR ''}'' then Some (JObj [], ds)
                 else
                   (case parse_members n (d # ds) of
                      None \<Rightarrow> None
                    | Some (kvs, rest) \<Rightarrow> Some (JObj (obj_spread [] kvs), rest)))
          else if c = CHR ''['' then
            (case skip_ws cs of
               [] \<Rightarrow> None
             | d # ds \<Rightarrow>
                 if d = CHR '']'' then Some (JArr [], ds)
                 else
                   (case parse_elements n (d # ds) of
                      None \<Rightarrow> None
                    | Some (vs, rest) \<Rightarrow> Some (JArr vs, rest)))
          else if c = CHR 0x22 then
            (case string_items cs of
               None \<Rightarrow> None
             | Some (its, rest) \<Rightarrow> Some (JStr (render its), rest))
          else if take 4 s = ''true'' then Some (JBool True, drop 4 s)
          else if take 5 s = ''false'' then Some (JBool False, drop 5 s)
          else if take 4 s = ''null'' then Some (JNull, drop 4 s)
          else
            (case number_literal s of
               None \<Rightarrow> None
             | Some (l, rest) \<Rightarrow> Some (JNumLit l, rest)))"
| "parse_elements 0 s = None"
| "parse_elements (Suc n) s =
     (case parse_value n s of
        None \<Rightarrow> None
      | Some (v, r) \<Rightarrow>
          (case skip_ws r of
             [] \<Rightarrow> None
           | d # ds \<Rightarrow>
               if d = CHR '','' then
                 (case parse_elements n (skip_ws ds) of
                    None \<Rightarrow> None
                  | Some (vs, rest) \<Rightarrow> Some (v # vs, rest))
               else if d = CHR '']'' then Some ([v], ds)
               else None))"
| "parse_members 0 s = None"
| "parse_members (Suc n) s =
     (case s of
        [] \<Rightarrow> None
      | c # cs \<Rightarrow>
          if c \<noteq> CHR 0x22 then None
          else
            (case string_items cs of
               None \<Rightarrow> None
             | Some (kits, r) \<Rightarrow>
                 (case skip_ws r of
                    [] \<Rightarrow> None
                  | d # ds \<Rightarrow>
                      if d \<noteq> CHR '':'' then None
                      else
                        (case parse_value n (skip_ws ds) of
                           None \<Rightarrow> None
                         | Some (v, r2) \<Rightarrow>
                             (case skip_ws r2 of
                                [] \<Rightarrow> None
                              | e # es \<Rightarrow>
                                  if e = CHR '','' then
                                    (case parse_members n (skip_ws es) of
                                       None \<Rightarrow> None
                                     | Some (kvs, rest) \<Rightarrow> Some ((render kits, v) # kvs, rest))
                                  else if e = CHR ''}'' then Some ([(render kits, v)], es)
                                  else None)))))"

definition JSON_parse :: "string \<Rightarrow> jsval option" where
  "JSON_parse text =
     (case parse_value (Suc (2 * length text)) (skip_ws text) of
        None \<Rightarrow> None
      | Some (v, rest) \<Rightarrow> if skip_ws rest = [] then Some v else None)"


section \<open>The OAuth flow (routes/auth.js)\<close>

record oauth_config =
  META_APP_ID :: "string option"
  META_APP_SECRET :: "string option"
  META_REDIRECT_URI :: "string option"

text \<open>A value of the process environment inside a template string or a parameter object.\<close>

definition template :: "string option \<Rightarrow> string" where
  "template v = (case v of None \<Rightarrow> ''undefined'' | Some s \<Rightarrow> s)"

text \<open>The \<open>state\<close> of \<open>/auth/start\<close>, and how \<open>/auth/callback\<close> reads it back.\<close>

definition encodeState :: "string \<Rightarrow> string" where
  "encodeState uid = base64_encode (utf8_bytes (stringify_userId uid))"

text \<open>
  \<open>JSON.parse(Buffer.from(state, 'base64').toString()).userId\<close>: \<open>None\<close> when the
  parser throws or the parsed value is \<open>null\<close>, of which no property can be read.
\<close>

definition decodeState :: "string \<Rightarrow> jsval option" where
  "decodeState state =
     (case JSON_parse (utf8_toString (base64_decode state)) of
        None \<Rightarrow> None
      | Some decodedState \<Rightarrow>
          (case decodedState of
             JNull \<Rightarrow> None
           | JObj kvs \<Rightarrow> Some (obj_get kvs ''userId'')
           | _ \<Rightarrow> Some JUndefined))"

definition scope :: string where
  "scope = ''ads_read,ads_management,business_management,leads_retrieval''"

definition auth_start :: "oauth_config \<Rightarrow> query \<Rightarrow> response" where
  "auth_start cfg q =
     (case q ''userId'' of
        None \<Rightarrow> error_response 400 ''userId is required''
      | Some uid \<Rightarrow>
          if uid = [] then error_response 400 ''userId is required''
          else if \<not> truthy_str (META_APP_ID cfg)
          then error_response 500 ''Meta OAuth credentials not configured''
          else if \<not> truthy_str (META_APP_SECRET cfg)
          then error_response 500 ''Meta OAuth credentials not configured''
          else
            \<lparr>status = 200,
             body = [(''success'', JBool True),
                     (''authUrl'',
                        JStr (''https://www.facebook.com/v18.0/dialog/oauth?'' @
                              ''client_id='' @ template (META_APP_ID cfg) @
                              ''&redirect_uri='' @
                                encodeURIComponent (template (META_REDIRECT_URI cfg)) @
                              ''&scope='' @ scope @
                              ''&state='' @ encodeState uid @
                              ''&response_type=code'')),
                     (''message'', JStr ''Redirect user to this URL to authenticate'')]\<rparr>)"

text \<open>
  The answers of the upstream token and account endpoints. An account is listed with its
  properties \<open>id\<close> (here \<open>ad_account_id\<close>) and \<open>account_id\<close>.
\<close>

record token_response =
  access_token :: "string option"
  expires_in :: "int option"
  token_type :: "string option"

record ad_account =
  ad_account_id :: string
  account_id :: string

record accounts_response =
  accounts_data :: "ad_account list option"

text \<open>The update document of \<open>findOneAndUpdate({userId}, tokenData, {upsert})\<close>.\<close>

record token_data =
  td_userId :: jsval
  td_accessToken :: string
  td_expiresAt :: "int option"
  td_tokenType :: string
  td_adAccountId :: "string option"

text \<open>
  What the callback needs from outside: the configuration, the two upstream endpoints,
  whether the store takes the write (\<open>None\<close>) or throws, and the two readings of the
  clock, \<open>Date.now()\<close> after the code exchange and after the long-lived exchange.
\<close>

record oauth_env =
  config :: oauth_config
  token_get :: "token_response http_get"
  accounts_get :: "accounts_response http_get"
  findOneAndUpdate :: "token_data \<Rightarrow> js_error option"
  now_exchanged :: int
  now_upgraded :: int

definition tokenUrl :: string where
  "tokenUrl = ''https://graph.facebook.com/v18.0/oauth/access_token''"

definition tokenParams :: "oauth_config \<Rightarrow> string \<Rightarrow> obj" where
  "tokenParams cfg code =
     [(''client_id'', str_val (META_APP_ID cfg)),
      (''client_secret'', str_val (META_APP_SECRET cfg)),
      (''redirect_uri'', str_val (META_REDIRECT_URI cfg)),
      (''code'', JStr code)]"

definition longLivedParams :: "oauth_config \<Rightarrow> string \<Rightarrow> obj" where
  "longLivedParams cfg token =
     [(''grant_type'', JStr ''fb_exchange_token''),
      (''client_id'', str_val (META_APP_ID cfg)),
      (''client_secret'', str_val (META_APP_SECRET cfg)),
      (''fb_exchange_token'', JStr token)]"

text \<open>
  \<open>expires_in ? new Date(Date.now() + expires_in * 1000) : null\<close>. Times are integers
  of any size here; a JavaScript \<open>Date\<close> holds a time only up to 8.64e15 ms from the
  epoch and is invalid beyond, which an \<open>expires_in\<close> of more than some 270,000 years
  would take.
\<close>

definition shortExpiresAt :: "int \<Rightarrow> int option \<Rightarrow> int option" where
  "shortExpiresAt t ex =
     (case ex of None \<Rightarrow> None | Some n \<Rightarrow> if n = 0 then None else Some (t + n * 1000))"

text \<open>The \<open>try\<close> block of the long-lived exchange: the token and the expiry to keep.\<close>

definition longLived :: "oauth_env \<Rightarrow> string \<Rightarrow> int option \<Rightarrow> string \<times> int option" where
  "longLived env token expiry =
     (case token_get env tokenUrl (longLivedParams (config env) token) of
        Inl error \<Rightarrow> (token, expiry)
      | Inr longLivedResponse \<Rightarrow>
          (case access_token longLivedResponse of
             None \<Rightarrow> (token, expiry)
           | Some longLivedToken \<Rightarrow>
               if longLivedToken = [] then (token, expiry)
               else
                 (let longLivedExpiresIn =
                        (case expires_in longLivedResponse of
                           None \<Rightarrow> 5184000
                         | Some n \<Rightarrow> if n = 0 then 5184000 else n)
                  in (longLivedToken, Some (now_upgraded env + longLivedExpiresIn * 1000)))))"

text \<open>The \<open>try\<close> block of the account discovery.\<close>

definition discoverAdAccount :: "oauth_env \<Rightarrow> string \<Rightarrow> string option" where
  "discoverAdAccount env token =
     (case accounts_get env ''https://graph.facebook.com/v18.0/me/adaccounts''
             [(''access_token'', JStr token), (''fields'', JStr ''id,account_id''),
              (''limit'', JNum 1)] of
        Inl error \<Rightarrow> None
      | Inr accountsResponse \<Rightarrow>
          (case accounts_data accountsResponse of
             None \<Rightarrow> None
           | Some [] \<Rightarrow> None
           | Some (a # _) \<Rightarrow> Some (ad_account_id a)))"

text \<open>The outer \<open>catch\<close> of the callback.\<close>

definition callback_failure :: "js_error \<Rightarrow> response" where
  "callback_failure error =
     error_response 500
       (or_default (case response_message error of None \<Rightarrow> None | Some m \<Rightarrow> m)
          (or_default (Some (message error)) ''Authentication failed''))"

text \<open>
  The callback answers and, when it gets that far, issues one write to the store; the
  result is that write (if issued) and the answer.
\<close>

definition auth_callback :: "oauth_env \<Rightarrow> query \<Rightarrow> token_data option \<times> response" where
  "auth_callback env q =
     (if truthy_str (q ''error'')
      then (None, error_response 400 (''OAuth error: '' @ template (q ''error'')))
      else if \<not> truthy_str (q ''code'')
      then (None, error_response 400 ''Missing code or state parameter'')
      else if \<not> truthy_str (q ''state'')
      then (None, error_response 400 ''Missing code or state parameter'')
      else
        (case decodeState (template (q ''state'')) of
           None \<Rightarrow> (None, error_response 400 ''Invalid state parameter'')
         | Some uid \<Rightarrow>
             (case token_get env tokenUrl (tokenParams (config env) (template (q ''code''))) of
                Inl error \<Rightarrow> (None, callback_failure error)
              | Inr tokenResponse \<Rightarrow>
                  (case access_token tokenResponse of
                     None \<Rightarrow> (None, error_response 400 ''Failed to obtain access token'')
                   | Some token \<Rightarrow>
                       if token = []
                       then (None, error_response 400 ''Failed to obtain access token'')
                       else
                         (let expiry = shortExpiresAt (now_exchanged env) (expires_in tokenResponse);
                              (longLivedToken, longLivedExpiresAt) = longLived env token expiry;
                              tokenData =
                                \<lparr>td_userId = uid,
                                 td_accessToken = longLivedToken,
                                 td_expiresAt = longLivedExpiresAt,
                                 td_tokenType = or_default (token_type tokenResponse) ''Bearer'',
                                 td_adAccountId = discoverAdAccount env longLivedToken\<rparr>
                          in case findOneAndUpdate env tokenData of
                               Some error \<Rightarrow> (Some tokenData, callback_failure error)
                             | None \<Rightarrow>
                                 (Some tokenData,
                                  \<lparr>status = 200,
                                   body = [(''success'', JBool True),
                                           (''message'', JStr ''Authentication successful''),
                                           (''userId'', uid),
                                           (''expiresAt'', nullable_date longLivedExpiresAt)]\<rparr>))))))"

text \<open>\<open>GET /auth/status\<close>\<close>

definition auth_status ::
  "(string \<Rightarrow> js_error + user_token option) \<Rightarrow> int \<Rightarrow> query \<Rightarrow> response" where
  "auth_status find_one t q =
     (case q ''userId'' of
        None \<Rightarrow> error_response 400 ''userId is required''
      | Some uid \<Rightarrow>
          if uid = [] then error_response 400 ''userId is required''
          else
            (case find_one uid of
               Inl error \<Rightarrow> error_response 500 ''Failed to check authentication status''
             | Inr None \<Rightarrow>
                 \<lparr>status = 200,
                  body = [(''success'', JBool False),
                          (''authenticated'', JBool False),
                          (''message'', JStr ''User not authenticated'')]\<rparr>
             | Inr (Some userToken) \<Rightarrow>
                 \<lparr>status = 200,
                  body = [(''success'', JBool True),
                          (''authenticated'', JBool (\<not> isExpired t userToken)),
                          (''expired'', JBool (isExpired t userToken)),
                          (''expiresAt'', nullable_date (expiresAt userToken)),
                          (''adAccountId'', nullable_str (adAccountId userToken))]\<rparr>))"


section \<open>Example data\<close>

text \<open>Concrete credentials, stores and upstream answers at which the theorems are instantiated.\<close>

definition example_token :: user_token where
  "example_token =
     \<lparr>userId = ''u1'', accessToken = ''tok'', refreshToken = None, expiresAt = Some 5000,
      tokenType = ''Bearer'', adAccountId = Some ''act_111'', createdAt = 0, updatedAt = 0\<rparr>"

definition example_store :: "string \<Rightarrow> js_error + user_token option" where
  "example_store u =
     (if u = ''u1'' then Inr (Some example_token)
      else if u = ''u2'' then Inr (Some (example_token\<lparr>userId := ''u2'', adAccountId := None\<rparr>))
      else Inr None)"

definition example_forms :: "form list" where
  "example_forms =
     [\<lparr>form_id = ''f1'', form_name = ''Form 1''\<rparr>, \<lparr>form_id = ''f2'', form_name = ''Form 2''\<rparr>,
      \<lparr>form_id = ''f3'', form_name = ''Form 3''\<rparr>, \<lparr>form_id = ''f4'', form_name = ''Form 4''\<rparr>,
      \<lparr>form_id = ''f5'', form_name = ''Form 5''\<rparr>, \<lparr>form_id = ''f6'', form_name = ''Form 6''\<rparr>,
      \<lparr>form_id = ''f7'', form_name = ''Form 7''\<rparr>]"

definition example_forms_get :: "forms_response http_get" where
  "example_forms_get url params =
     Inr \<lparr>forms_data = Some example_forms, forms_paging = JObj [(''next'', JStr ''page2'')]\<rparr>"

text \<open>The leads of form \<open>f3\<close> cannot be fetched; every other form has one lead.\<close>

definition example_leads_get :: "leads_response http_get" where
  "example_leads_get url params =
     (if url = ''https://graph.facebook.com/v18.0/f3/leads''
      then Inl \<lparr>message = ''socket hang up'', response_message = None\<rparr>
      else Inr \<lparr>leads_data = Some [[(''id'', JStr url)]]\<rparr>)"

text \<open>
  An upstream with twelve leads for every form that answers with as many of them as the
  request's \<open>limit\<close> allows.
\<close>

definition example_twelve_leads :: "obj list" where
  "example_twelve_leads =
     [[(''id'', JNum 0)], [(''id'', JNum 1)], [(''id'', JNum 2)], [(''id'', JNum 3)],
      [(''id'', JNum 4)], [(''id'', JNum 5)], [(''id'', JNum 6)], [(''id'', JNum 7)],
      [(''id'', JNum 8)], [(''id'', JNum 9)], [(''id'', JNum 10)], [(''id'', JNum 11)]]"

definition example_paged_leads_get :: "leads_response http_get" where
  "example_paged_leads_get url params =
     (case obj_get params ''limit'' of
        JNum n \<Rightarrow> Inr \<lparr>leads_data = Some (take (nat n) example_twelve_leads)\<rparr>
      | _ \<Rightarrow> Inr \<lparr>leads_data = Some example_twelve_leads\<rparr>)"

definition example_env :: meta_env where
  "example_env =
     \<lparr>findOne = example_store, date_now = 1000, list_get = (\<lambda>url params. Inr []),
      forms_get = example_forms_get, leads_get = example_leads_get\<rparr>"

text \<open>An OAuth environment whose long-lived exchange answers as given.\<close>

definition example_config :: oauth_config where
  "example_config =
     \<lparr>META_APP_ID = Some ''1234'', META_APP_SECRET = Some ''s3cret'',
      META_REDIRECT_URI = Some ''https://bot.example/auth/callback''\<rparr>"

definition example_oauth_env :: "(js_error + token_response) \<Rightarrow> oauth_env" where
  "example_oauth_env upgrade =
     \<lparr>config = example_config,
      token_get = (\<lambda>url params.
         if obj_get params ''grant_type'' = JStr ''fb_exchange_token'' then upgrade
         else Inr \<lparr>access_token = Some ''short'', expires_in = Some 3600, token_type = None\<rparr>),
      accounts_get = (\<lambda>url params. Inr \<lparr>accounts_data =
                                           Some [\<lparr>ad_account_id = ''act_111'',
                                                  account_id = ''111''\<rparr>]\<rparr>),
      findOneAndUpdate = (\<lambda>tokenData. None),
      now_exchanged = 1000,
      now_upgraded = 2000\<rparr>"

definition example_callback_query :: query where
  "example_callback_query = [''code'' \<mapsto> ''c0de'', ''state'' \<mapsto> ''eyJ1c2VySWQiOiJhYmMifQ=='']"


section \<open>Properties\<close>

subsection \<open>Objects\<close>

lemma map_of_obj_set: "map_of (obj_set k v kvs) = (map_of kvs)(k \<mapsto> v)"
  by (induction kvs) (auto simp: fun_eq_iff)

lemma obj_get_obj_set: "obj_get (obj_set k v kvs) k' = (if k' = k then v else obj_get kvs k')"
  by (simp add: obj_get_def map_of_obj_set)

subsection \<open>The credential\<close>

text \<open>
  C3. A credential without \<open>expiresAt\<close> is never reported expired; one whose
  \<open>expiresAt\<close> lies strictly before the current time is reported expired; one whose
  \<open>expiresAt\<close> lies strictly after it is not.
\<close>

theorem isExpired_cases:
  "(expiresAt t = None \<longrightarrow> \<not> isExpired now t) \<and>
   (\<forall>e. expiresAt t = Some e \<and> e < now \<longrightarrow> isExpired now t) \<and>
   (\<forall>e. expiresAt t = Some e \<and> now < e \<longrightarrow> \<not> isExpired now t)"
  by (auto simp: isExpired_def)

theorem isExpired_cases_witness:
  "\<not> isExpired 1000 (example_token\<lparr>expiresAt := None\<rparr>) \<and>
   isExpired 1000 (example_token\<lparr>expiresAt := Some 999\<rparr>) \<and>
   \<not> isExpired 1000 (example_token\<lparr>expiresAt := Some 1001\<rparr>)"
  using isExpired_cases [of "example_token\<lparr>expiresAt := None\<rparr>" 1000]
    isExpired_cases [of "example_token\<lparr>expiresAt := Some 999\<rparr>" 1000]
    isExpired_cases [of "example_token\<lparr>expiresAt := Some 1001\<rparr>" 1000]
  by simp

subsection \<open>The request gate and the campaigns endpoint\<close>

text \<open>
  C1. The endpoints are documented with \<open>adAccountId\<close> as the account a request asks
  for, and the claim says that this parameter overrides the stored ad-account id. The gate
  does the opposite: for a credential with the stored id \<open>act_111\<close> and a request that
  names \<open>act_222\<close>, it hands \<open>act_111\<close> to the handler and drops the parameter.
\<close>

theorem gate_drops_explicit_account:
  "validateUserAndToken example_env [''userId'' \<mapsto> ''u1'', ''adAccountId'' \<mapsto> ''act_222''] =
     Inr \<lparr>req_userToken = example_token, req_accessToken = ''tok'',
          req_adAccountId = Some ''act_111''\<rparr> \<and>
   validateUserAndToken example_env [''userId'' \<mapsto> ''u1'', ''adAccountId'' \<mapsto> ''act_222''] \<noteq>
     Inr \<lparr>req_userToken = example_token, req_accessToken = ''tok'',
          req_adAccountId = Some ''act_222''\<rparr>"
  by (simp add: validateUserAndToken_def example_env_def example_store_def example_token_def
        isExpired_def or_str_def truthy_str_def)

text \<open>
  The same for every request that passes the gate: as the code is written, a stored
  (non-empty) ad-account id is handed on whatever the request names, and the request's
  parameter only when the credential has none.
\<close>

lemma gate_account_as_written:
  fixes env :: meta_env
  assumes "validateUserAndToken env q = Inr req"
  shows "(\<exists>uid. q ''userId'' = Some uid \<and> findOne env uid = Inr (Some (req_userToken req))) \<and>
         (truthy_str (adAccountId (req_userToken req)) \<longrightarrow>
            req_adAccountId req = adAccountId (req_userToken req)) \<and>
         (\<not> truthy_str (adAccountId (req_userToken req)) \<longrightarrow>
            req_adAccountId req = q ''adAccountId'')"
  using assms
  by (auto simp: validateUserAndToken_def or_str_def
        split: option.splits if_splits sum.splits)

text \<open>
  C4. A campaigns request whose \<open>userId\<close> has no stored credential is answered 401; one
  whose credential is valid while neither the stored nor the requested ad-account id is
  set is answered 400.
\<close>

theorem campaigns_unauthenticated_401_no_account_400:
  fixes env :: meta_env
  assumes "q ''userId'' = Some uid" and "uid \<noteq> []"
  shows
   "(findOne env uid = Inr None \<longrightarrow>
       meta_campaigns env q =
         error_response 401 ''User not authenticated. Please complete OAuth flow first.'' \<and>
       status (meta_campaigns env q) = 401) \<and>
    (\<forall>t. findOne env uid = Inr (Some t) \<and> \<not> isExpired (date_now env) t \<and>
         \<not> truthy_str (adAccountId t) \<and> \<not> truthy_str (q ''adAccountId'') \<longrightarrow>
       meta_campaigns env q =
         error_response 400
           ''adAccountId is required. Provide it in query params or complete OAuth to auto-detect.'' \<and>
       status (meta_campaigns env q) = 400)"
  using assms
  by (auto simp: meta_campaigns_def validateUserAndToken_def error_response_def or_str_def
        truthy_str_def split: option.splits)

theorem campaigns_unauthenticated_401_no_account_400_witness:
  "meta_campaigns example_env [''userId'' \<mapsto> ''nobody''] =
     error_response 401 ''User not authenticated. Please complete OAuth flow first.'' \<and>
   status (meta_campaigns example_env [''userId'' \<mapsto> ''nobody'']) = 401 \<and>
   meta_campaigns example_env [''userId'' \<mapsto> ''u2''] =
     error_response 400
       ''adAccountId is required. Provide it in query params or complete OAuth to auto-detect.'' \<and>
   status (meta_campaigns example_env [''userId'' \<mapsto> ''u2'']) = 400"
  using
    campaigns_unauthenticated_401_no_account_400
      [of "[''userId'' \<mapsto> ''nobody'']" "''nobody''" example_env]
    campaigns_unauthenticated_401_no_account_400
      [of "[''userId'' \<mapsto> ''u2'']" "''u2''" example_env]
  by (simp add: example_env_def example_store_def example_token_def isExpired_def truthy_str_def
        error_response_def)

subsection \<open>The status endpoint\<close>

text \<open>
  C9. For a \<open>userId\<close> without stored credential, \<open>/auth/status\<close> answers 200 with
  \<open>{success: false, authenticated: false, message}\<close>; the body has no \<open>error\<close>
  property.
\<close>

theorem status_unauthenticated_is_200:
  assumes "q ''userId'' = Some uid" and "uid \<noteq> []" and "find_one uid = Inr None"
  shows "status (auth_status find_one t q) = 200 \<and>
         body (auth_status find_one t q) =
           [(''success'', JBool False), (''authenticated'', JBool False),
            (''message'', JStr ''User not authenticated'')] \<and>
         map_of (body (auth_status find_one t q)) ''error'' = None"
  using assms by (simp add: auth_status_def)

theorem status_unauthenticated_is_200_witness:
  "status (auth_status example_store 1000 [''userId'' \<mapsto> ''nobody'']) = 200 \<and>
   body (auth_status example_store 1000 [''userId'' \<mapsto> ''nobody'']) =
     [(''success'', JBool False), (''authenticated'', JBool False),
      (''message'', JStr ''User not authenticated'')] \<and>
   map_of (body (auth_status example_store 1000 [''userId'' \<mapsto> ''nobody''])) ''error'' = None"
  using status_unauthenticated_is_200
      [of "[''userId'' \<mapsto> ''nobody'']" "''nobody''" example_store 1000]
  by (simp add: example_store_def)

subsection \<open>The leads operation\<close>

lemma tagLead_form_id: "obj_get (tagLead f l) ''form_id'' = JStr (form_id f)"
  by (simp add: tagLead_def obj_get_obj_set)

lemma tagLead_form_name: "obj_get (tagLead f l) ''form_name'' = JStr (form_name f)"
  by (simp add: tagLead_def obj_get_obj_set)

lemma pushedLeads_tagged:
  "l \<in> set (pushedLeads lg tok f) \<Longrightarrow>
     obj_get l ''form_id'' = JStr (form_id f) \<and> obj_get l ''form_name'' = JStr (form_name f)"
  by (auto simp: pushedLeads_def tagLead_form_id tagLead_form_name
        split: sum.splits option.splits)

lemma collectLeads_concat:
  "collectLeads lg tok fs acc = acc @ concat (map (pushedLeads lg tok) fs)"
  by (induction fs arbitrary: acc) auto

lemma getLeads_data:
  assumes "makeGraphApiRequest fg tok (''/'' @ accountId a @ ''/leadgen_forms'')
             [(''fields'', JStr ''id,name,status''),
              (''limit'', js_or (obj_get ps ''limit'') (JNum 25))] = Inr fr"
  shows "getLeads fg lg tok a ps =
           Inr \<lparr>data = (case forms_data fr of None \<Rightarrow> []
                        | Some fs \<Rightarrow> concat (map (pushedLeads lg tok) (take 5 fs))),
                paging = forms_paging fr\<rparr>"
  using assms by (auto simp: getLeads_def collectLeads_concat split: option.splits)

lemma length_concat_le:
  "(\<forall>x \<in> set xs. length (g x) \<le> n) \<Longrightarrow> length (concat (map g xs)) \<le> length xs * n"
  by (induction xs) auto

text \<open>
  C2. When the forms are listed, the leads operation succeeds and its leads are those
  pushed for the first five forms, in order; every lead carries the \<open>form_id\<close> and
  \<open>form_name\<close> of the form it was fetched for; a form whose leads cannot be fetched
  adds nothing, and the leads fetched for any other of the five forms are in the result.
\<close>

theorem getLeads_first_five_tagged_tolerant:
  assumes "makeGraphApiRequest fg tok (''/'' @ accountId a @ ''/leadgen_forms'')
             [(''fields'', JStr ''id,name,status''),
              (''limit'', js_or (obj_get ps ''limit'') (JNum 25))] = Inr fr"
    and "forms_data fr = Some fs"
  shows "\<exists>r. getLeads fg lg tok a ps = Inr r \<and>
           data r = concat (map (pushedLeads lg tok) (take 5 fs)) \<and>
           (\<forall>l \<in> set (data r). \<exists>f \<in> set (take 5 fs).
               l \<in> set (pushedLeads lg tok f) \<and>
               obj_get l ''form_id'' = JStr (form_id f) \<and>
               obj_get l ''form_name'' = JStr (form_name f)) \<and>
           (\<forall>f \<in> set (take 5 fs).
               (\<forall>e. fetchFormLeads lg tok f = Inl e \<longrightarrow> pushedLeads lg tok f = []) \<and>
               (\<forall>ls. fetchFormLeads lg tok f = Inr \<lparr>leads_data = Some ls\<rparr> \<longrightarrow>
                    pushedLeads lg tok f = map (tagLead f) ls \<and>
                    set (map (tagLead f) ls) \<subseteq> set (data r)))"
proof -
  let ?d = "concat (map (pushedLeads lg tok) (take 5 fs))"
  have r: "getLeads fg lg tok a ps = Inr \<lparr>data = ?d, paging = forms_paging fr\<rparr>"
    using getLeads_data [OF assms(1)] assms(2) by simp
  have tagged: "\<forall>l \<in> set ?d. \<exists>f \<in> set (take 5 fs).
               l \<in> set (pushedLeads lg tok f) \<and>
               obj_get l ''form_id'' = JStr (form_id f) \<and>
               obj_get l ''form_name'' = JStr (form_name f)"
    using pushedLeads_tagged by fastforce
  have tolerant: "\<forall>f \<in> set (take 5 fs).
               (\<forall>e. fetchFormLeads lg tok f = Inl e \<longrightarrow> pushedLeads lg tok f = []) \<and>
               (\<forall>ls. fetchFormLeads lg tok f = Inr \<lparr>leads_data = Some ls\<rparr> \<longrightarrow>
                    pushedLeads lg tok f = map (tagLead f) ls \<and>
                    set (map (tagLead f) ls) \<subseteq> set ?d)"
    by (auto simp: pushedLeads_def)
  show ?thesis using r tagged tolerant by simp
qed

theorem getLeads_first_five_tagged_tolerant_witness:
  "\<exists>r. getLeads example_forms_get example_leads_get ''tok'' ''123'' [] = Inr r \<and>
       data r =
         [[(''id'', JStr ''https://graph.facebook.com/v18.0/f1/leads''),
           (''form_id'', JStr ''f1''), (''form_name'', JStr ''Form 1'')],
          [(''id'', JStr ''https://graph.facebook.com/v18.0/f2/leads''),
           (''form_id'', JStr ''f2''), (''form_name'', JStr ''Form 2'')],
          [(''id'', JStr ''https://graph.facebook.com/v18.0/f4/leads''),
           (''form_id'', JStr ''f4''), (''form_name'', JStr ''Form 4'')],
          [(''id'', JStr ''https://graph.facebook.com/v18.0/f5/leads''),
           (''form_id'', JStr ''f5''), (''form_name'', JStr ''Form 5'')]]"
proof -
  have listed:
    "makeGraphApiRequest example_forms_get ''tok'' (''/'' @ accountId ''123'' @ ''/leadgen_forms'')
       [(''fields'', JStr ''id,name,status''), (''limit'', js_or (obj_get [] ''limit'') (JNum 25))] =
     Inr \<lparr>forms_data = Some example_forms, forms_paging = JObj [(''next'', JStr ''page2'')]\<rparr>"
    by (simp add: makeGraphApiRequest_def example_forms_get_def)
  have pushed:
    "concat (map (pushedLeads example_leads_get ''tok'') (take 5 example_forms)) =
         [[(''id'', JStr ''https://graph.facebook.com/v18.0/f1/leads''),
           (''form_id'', JStr ''f1''), (''form_name'', JStr ''Form 1'')],
          [(''id'', JStr ''https://graph.facebook.com/v18.0/f2/leads''),
           (''form_id'', JStr ''f2''), (''form_name'', JStr ''Form 2'')],
          [(''id'', JStr ''https://graph.facebook.com/v18.0/f4/leads''),
           (''form_id'', JStr ''f4''), (''form_name'', JStr ''Form 4'')],
          [(''id'', JStr ''https://graph.facebook.com/v18.0/f5/leads''),
           (''form_id'', JStr ''f5''), (''form_name'', JStr ''Form 5'')]]"
    by (simp add: example_forms_def pushedLeads_def fetchFormLeads_def makeGraphApiRequest_def
          example_leads_get_def GRAPH_API_BASE_def tagLead_def)
  from getLeads_first_five_tagged_tolerant [OF listed, of example_forms example_leads_get]
  show ?thesis using pushed by auto
qed

text \<open>
  C10. The caller's \<open>limit\<close> (25 when not given) goes to the listing of the forms and
  nowhere else: the leads returned are, for each of the first five forms listed, the
  tagged leads of the upstream's answer to the request for that form's leads with
  \<open>limit\<close> 10, whatever the caller's limit is. So, with an upstream that answers such a
  request with at most 10 leads, at most 50 leads are returned. The paging returned is
  that of the listing of the forms.
\<close>

theorem getLeads_limits:
  assumes "fg (GRAPH_API_BASE @ ''/'' @ accountId a @ ''/leadgen_forms'')
             [(''access_token'', JStr tok), (''fields'', JStr ''id,name,status''),
              (''limit'', if truthy (obj_get ps ''limit'') then obj_get ps ''limit'' else JNum 25)]
           = Inr fr"
  shows "\<exists>r. getLeads fg lg tok a ps = Inr r \<and>
           data r =
             concat (map
               (\<lambda>f. case lg (GRAPH_API_BASE @ ''/'' @ form_id f @ ''/leads'')
                            [(''access_token'', JStr tok),
                             (''fields'', JStr ''id,created_time,field_data''),
                             (''limit'', JNum 10)] of
                       Inl e \<Rightarrow> []
                     | Inr formLeads \<Rightarrow>
                         (case leads_data formLeads of
                            None \<Rightarrow> []
                          | Some ls \<Rightarrow> map (tagLead f) ls))
               (take 5 (case forms_data fr of None \<Rightarrow> [] | Some fs \<Rightarrow> fs))) \<and>
           paging r = forms_paging fr \<and>
           ((\<forall>(f::form) ls.
                lg (GRAPH_API_BASE @ ''/'' @ form_id f @ ''/leads'')
                   [(''access_token'', JStr tok),
                    (''fields'', JStr ''id,created_time,field_data''),
                    (''limit'', JNum 10)] = Inr \<lparr>leads_data = Some ls\<rparr> \<longrightarrow>
                length ls \<le> 10) \<longrightarrow>
            length (data r) \<le> 50)"
proof -
  let ?fetch = "\<lambda>f::form. lg (GRAPH_API_BASE @ ''/'' @ form_id f @ ''/leads'')
                            [(''access_token'', JStr tok),
                             (''fields'', JStr ''id,created_time,field_data''),
                             (''limit'', JNum 10)]"
  let ?pushed = "\<lambda>f. case ?fetch f of
                       Inl e \<Rightarrow> []
                     | Inr formLeads \<Rightarrow>
                         (case leads_data formLeads of
                            None \<Rightarrow> []
                          | Some ls \<Rightarrow> map (tagLead f) ls)"
  let ?forms = "take 5 (case forms_data fr of None \<Rightarrow> [] | Some fs \<Rightarrow> fs)"
  have m: "makeGraphApiRequest fg tok (''/'' @ accountId a @ ''/leadgen_forms'')
             [(''fields'', JStr ''id,name,status''),
              (''limit'', js_or (obj_get ps ''limit'') (JNum 25))] = Inr fr"
    using assms by (simp add: makeGraphApiRequest_def js_or_def)
  have pushed: "pushedLeads lg tok = ?pushed"
    by (rule ext)
       (simp add: pushedLeads_def fetchFormLeads_def makeGraphApiRequest_def
          split: sum.splits option.splits)
  have r: "getLeads fg lg tok a ps =
             Inr \<lparr>data = concat (map ?pushed ?forms), paging = forms_paging fr\<rparr>"
    using getLeads_data [OF m, of lg] by (simp add: pushed split: option.splits)
  have bound: "length (concat (map ?pushed ?forms)) \<le> 50"
    if honoured: "\<forall>(f::form) ls. ?fetch f = Inr \<lparr>leads_data = Some ls\<rparr> \<longrightarrow> length ls \<le> 10"
  proof -
    have each: "length (?pushed f) \<le> 10" for f
    proof (cases "?fetch f")
      case (Inl e)
      then show ?thesis by simp
    next
      case (Inr formLeads)
      show ?thesis
      proof (cases "leads_data formLeads")
        case None
        with Inr show ?thesis by simp
      next
        case (Some ls)
        then have "formLeads = \<lparr>leads_data = Some ls\<rparr>" by (cases formLeads) simp
        with Inr honoured have "length ls \<le> 10" by blast
        with Inr Some show ?thesis by simp
      qed
    qed
    have "length (concat (map ?pushed ?forms)) \<le> length ?forms * 10"
      by (rule length_concat_le) (rule ballI, rule each)
    also have "\<dots> \<le> 50" by simp
    finally show ?thesis .
  qed
  show ?thesis
    unfolding r using bound by simp
qed

theorem getLeads_limits_witness:
  "\<exists>r. getLeads example_forms_get example_paged_leads_get ''tok'' ''123''
          [(''limit'', JStr ''100'')] = Inr r \<and>
       length (data r) = 50 \<and>
       take 2 (data r) =
         [[(''id'', JNum 0), (''form_id'', JStr ''f1''), (''form_name'', JStr ''Form 1'')],
          [(''id'', JNum 1), (''form_id'', JStr ''f1''), (''form_name'', JStr ''Form 1'')]] \<and>
       last (data r) =
         [(''id'', JNum 9), (''form_id'', JStr ''f5''), (''form_name'', JStr ''Form 5'')] \<and>
       length (data r) \<le> 50 \<and>
       paging r = JObj [(''next'', JStr ''page2'')]"
proof -
  let ?fr = "\<lparr>forms_data = Some example_forms, forms_paging = JObj [(''next'', JStr ''page2'')]\<rparr>"
  have listed:
    "example_forms_get (GRAPH_API_BASE @ ''/'' @ accountId ''123'' @ ''/leadgen_forms'')
       [(''access_token'', JStr ''tok''), (''fields'', JStr ''id,name,status''),
        (''limit'', if truthy (obj_get [(''limit'', JStr ''100'')] ''limit'')
                    then obj_get [(''limit'', JStr ''100'')] ''limit'' else JNum 25)] = Inr ?fr"
    by (simp add: example_forms_get_def)
  have honoured:
    "\<forall>(f::form) ls. example_paged_leads_get (GRAPH_API_BASE @ ''/'' @ form_id f @ ''/leads'')
         [(''access_token'', JStr ''tok''), (''fields'', JStr ''id,created_time,field_data''),
          (''limit'', JNum 10)] = Inr \<lparr>leads_data = Some ls\<rparr> \<longrightarrow> length ls \<le> 10"
    by (simp add: example_paged_leads_get_def obj_get_def)
  have answer: "example_paged_leads_get url
         [(''access_token'', JStr ''tok''), (''fields'', JStr ''id,created_time,field_data''),
          (''limit'', JNum 10)] = Inr \<lparr>leads_data = Some (take 10 example_twelve_leads)\<rparr>" for url
    by (simp add: example_paged_leads_get_def obj_get_def)
  from getLeads_limits [where fg = example_forms_get and lg = example_paged_leads_get
      and tok = "''tok''" and a = "''123''" and ps = "[(''limit'', JStr ''100'')]"
      and fr = ?fr, OF listed]
  obtain r where all:
    "getLeads example_forms_get example_paged_leads_get ''tok'' ''123''
       [(''limit'', JStr ''100'')] = Inr r \<and>
     data r =
       concat (map
         (\<lambda>f. case example_paged_leads_get (GRAPH_API_BASE @ ''/'' @ form_id f @ ''/leads'')
                      [(''access_token'', JStr ''tok''),
                       (''fields'', JStr ''id,created_time,field_data''),
                       (''limit'', JNum 10)] of
                 Inl e \<Rightarrow> []
               | Inr formLeads \<Rightarrow>
                   (case leads_data formLeads of
                      None \<Rightarrow> []
                    | Some ls \<Rightarrow> map (tagLead f) ls))
         (take 5 (case forms_data ?fr of None \<Rightarrow> [] | Some fs \<Rightarrow> fs))) \<and>
     paging r = forms_paging ?fr \<and>
     ((\<forall>(f::form) ls.
          example_paged_leads_get (GRAPH_API_BASE @ ''/'' @ form_id f @ ''/leads'')
             [(''access_token'', JStr ''tok''),
              (''fields'', JStr ''id,created_time,field_data''),
              (''limit'', JNum 10)] = Inr \<lparr>leads_data = Some ls\<rparr> \<longrightarrow>
          length ls \<le> 10) \<longrightarrow>
      length (data r) \<le> 50)" ..
  from all have run:
    "getLeads example_forms_get example_paged_leads_get ''tok'' ''123''
       [(''limit'', JStr ''100'')] = Inr r"
    by (rule conjunct1)
  from all have leads: "data r =
       concat (map (\<lambda>f. map (tagLead f) (take 10 example_twelve_leads)) (take 5 example_forms))"
    by (simp only: answer sum.case leads_response.simps option.case forms_response.simps)
  from all have page: "paging r = JObj [(''next'', JStr ''page2'')]"
    by (simp only: forms_response.simps)
  from all honoured have bound: "length (data r) \<le> 50"
    by blast
  from leads have "length (data r) = 50"
    by (simp add: example_twelve_leads_def example_forms_def)
  moreover from leads have "take 2 (data r) =
         [[(''id'', JNum 0), (''form_id'', JStr ''f1''), (''form_name'', JStr ''Form 1'')],
          [(''id'', JNum 1), (''form_id'', JStr ''f1''), (''form_name'', JStr ''Form 1'')]]"
    by (simp add: example_twelve_leads_def example_forms_def tagLead_def)
  moreover from leads have "last (data r) =
         [(''id'', JNum 9), (''form_id'', JStr ''f5''), (''form_name'', JStr ''Form 5'')]"
    by (simp add: example_twelve_leads_def example_forms_def tagLead_def)
  ultimately show ?thesis using run page bound by blast
qed

subsection \<open>The account id\<close>

text \<open>
  C6. An ad-account id without the prefix \<open>act_\<close> gets it prepended, one that has it
  is kept, so doing it twice changes nothing; the campaigns, ad-sets (when no campaign is
  given), spend and leads operations address the upstream by the id so prepared.
\<close>

theorem accountId_prefix:
  "(take 4 a \<noteq> ''act_'' \<longrightarrow> accountId a = ''act_'' @ a) \<and>
   (take 4 a = ''act_'' \<longrightarrow> accountId a = a) \<and>
   accountId (accountId a) = accountId a \<and>
   (\<exists>params. getCampaigns ax tok a ps =
        makeGraphApiRequest ax tok (''/'' @ accountId a @ ''/campaigns'') params) \<and>
   (\<exists>params. getAdSets ax tok a None ps =
        makeGraphApiRequest ax tok (''/'' @ accountId a @ ''/adsets'') params) \<and>
   (\<exists>params. getSpend str ax tok a ps =
        makeGraphApiRequest ax tok (''/'' @ accountId a @ ''/insights'') params) \<and>
   (\<exists>params.
      case makeGraphApiRequest fg tok (''/'' @ accountId a @ ''/leadgen_forms'') params of
        Inl e \<Rightarrow> getLeads fg lg tok a ps = Inl e
      | Inr fr \<Rightarrow> \<exists>r. getLeads fg lg tok a ps = Inr r \<and> paging r = forms_paging fr)"
  apply (intro conjI)
  subgoal by (simp add: accountId_def)
  subgoal by (simp add: accountId_def)
  subgoal by (simp add: accountId_def)
  subgoal by (auto simp: getCampaigns_def)
  subgoal by (auto simp: getAdSets_def truthy_str_def)
  subgoal by (auto simp: getSpend_def Let_def)
  subgoal by (rule exI [of _ "[(''fields'', JStr ''id,name,status''),
              (''limit'', js_or (obj_get ps ''limit'') (JNum 25))]"])
      (simp add: getLeads_def split: sum.splits)
  done

theorem accountId_prefix_witness:
  "accountId ''123456789'' = ''act_123456789'' \<and> accountId ''act_123456789'' = ''act_123456789''"
  using accountId_prefix [of "''123456789''"] accountId_prefix [of "''act_123456789''"]
  by simp

subsection \<open>The bound of the JSON parser\<close>

text \<open>
  The parser never stops for want of nested calls: what it returns with the bound that
  \<open>JSON_parse\<close> gives it is what it returns with any larger one.
\<close>

lemma skip_ws_length: "length (skip_ws s) \<le> length s"
  by (simp add: skip_ws_def length_dropWhile_le)

lemma string_items_shorter: "string_items s = Some (its, r) \<Longrightarrow> length r < length s"
proof (induction s arbitrary: its r rule: length_induct)
  case (1 s)
  show ?case
  proof (cases s)
    case Nil
    with "1.prems" show ?thesis by simp
  next
    case (Cons c cs)
    have IH: "string_items t = Some (its', r') \<Longrightarrow> length t < length s \<Longrightarrow> length r' < length t"
      for t its' r'
      using "1.IH" by blast
    consider (quote) "c = CHR 0x22" | (esc) "c \<noteq> CHR 0x22" "c = CHR 0x5C"
      | (plain) "c \<noteq> CHR 0x22" "c \<noteq> CHR 0x5C"
      by blast
    then show ?thesis
    proof cases
      case quote
      with "1.prems" Cons show ?thesis by simp
    next
      case plain
      with "1.prems" Cons obtain its' where "string_items cs = Some (its', r)"
        by (auto split: if_splits option.splits)
      from IH [OF this] Cons show ?thesis by simp
    next
      case esc
      show ?thesis
      proof (cases cs)
        case Nil
        with "1.prems" Cons esc show ?thesis by simp
      next
        case inner: (Cons e t)
        show ?thesis
        proof (cases "e = CHR ''u''")
          case False
          with "1.prems" Cons esc inner obtain its' where "string_items t = Some (its', r)"
            by (auto split: option.splits)
          from IH [OF this] Cons inner show ?thesis by simp
        next
          case True
          with "1.prems" Cons esc inner obtain h1 h2 h3 h4 t' its' where
            "t = h1 # h2 # h3 # h4 # t'" "string_items t' = Some (its', r)"
            by (auto split: list.splits option.splits)
          with IH [OF this(2)] Cons inner show ?thesis by simp
        qed
      qed
    qed
  qed
qed

lemma int_part_shorter: "int_part s = Some (i, r) \<Longrightarrow> length r < length s"
proof (cases s)
  case Nil
  assume "int_part s = Some (i, r)"
  with Nil show ?thesis by (simp add: int_part_def)
next
  case (Cons c t)
  assume a: "int_part s = Some (i, r)"
  show ?thesis
  proof (cases "c = CHR ''0''")
    case True
    with a Cons show ?thesis by (simp add: int_part_def)
  next
    case False
    with a Cons have "is_digit c" and "r = dropWhile is_digit t"
      by (auto simp: int_part_def split: if_splits)
    then have "length r \<le> length t" by (simp add: length_dropWhile_le)
    with Cons show ?thesis by simp
  qed
qed

lemma frac_part_shorter: "frac_part s = Some (f, r) \<Longrightarrow> length r \<le> length s"
proof (cases s)
  case Nil
  assume "frac_part s = Some (f, r)"
  with Nil show ?thesis by (simp add: frac_part_def)
next
  case (Cons c t)
  assume a: "frac_part s = Some (f, r)"
  show ?thesis
  proof (cases "c = CHR ''.''")
    case False
    with a Cons show ?thesis by (simp add: frac_part_def)
  next
    case True
    with a Cons have "r = dropWhile is_digit t"
      by (auto simp: frac_part_def split: if_splits)
    then have "length r \<le> length t" by (simp add: length_dropWhile_le)
    with Cons show ?thesis by simp
  qed
qed

lemma exp_part_shorter: "exp_part s = Some (e, r) \<Longrightarrow> length r \<le> length s"
proof (cases s)
  case Nil
  assume "exp_part s = Some (e, r)"
  with Nil show ?thesis by (simp add: exp_part_def)
next
  case (Cons c t)
  assume a: "exp_part s = Some (e, r)"
  show ?thesis
  proof (cases "c = CHR ''e'' \<or> c = CHR ''E''")
    case False
    with a Cons show ?thesis by (simp add: exp_part_def)
  next
    case True
    with a Cons obtain k where "r = dropWhile is_digit (drop k t)"
      by (auto simp: exp_part_def Let_def split: if_splits)
    then have "length r \<le> length (drop k t)"
      using length_dropWhile_le [of is_digit "drop k t"] by simp
    with Cons show ?thesis by simp
  qed
qed

lemma number_literal_shorter:
  assumes "number_literal s = Some (l, r)"
  shows "length r < length s"
proof -
  from assms obtain k i s1 f s2 e where
    "int_part (drop k s) = Some (i, s1)" "frac_part s1 = Some (f, s2)" "exp_part s2 = Some (e, r)"
    unfolding number_literal_def Let_def
    by (auto split: option.splits prod.splits)
  from int_part_shorter [OF this(1)] frac_part_shorter [OF this(2)] exp_part_shorter [OF this(3)]
  show ?thesis by simp
qed

lemma skip_ws_Cons_length: "skip_ws s = d # ds \<Longrightarrow> length ds < length s"
  using skip_ws_length [of s] by simp

lemma skip_ws_Cons_le: "skip_ws s = d # ds \<Longrightarrow> Suc (length ds) \<le> length s"
  using skip_ws_length [of s] by simp

lemma parse_shorter:
  "parse_value n s = Some (v, r) \<Longrightarrow> length r < length s"
  "parse_elements n s = Some (vs, r) \<Longrightarrow> length r < length s"
  "parse_members n s = Some (kvs, r) \<Longrightarrow> length r < length s"
proof (induction n s and n s and n s arbitrary: v r and vs r and kvs r
       rule: parse_value_parse_elements_parse_members.induct)
  case (1 s)
  then show ?case by simp
next
  case (2 n s)
  from "2.prems" obtain c cs where s: "s = c # cs" by (cases s) auto
  consider (obj) "c = CHR ''{''" | (arr) "c \<noteq> CHR ''{''" "c = CHR ''[''"
    | (str) "c \<noteq> CHR ''{''" "c \<noteq> CHR ''[''" "c = CHR 0x22"
    | (other) "c \<noteq> CHR ''{''" "c \<noteq> CHR ''[''" "c \<noteq> CHR 0x22"
    by blast
  then show ?case
  proof cases
    case obj
    with "2.prems" s obtain d ds where sk: "skip_ws cs = d # ds"
      by (auto split: list.splits)
    show ?thesis
    proof (cases "d = CHR ''}''")
      case True
      with "2.prems" s obj sk skip_ws_Cons_length [OF sk] show ?thesis by auto
    next
      case False
      with "2.prems" s obj sk obtain kvs' where "parse_members n (d # ds) = Some (kvs', r)"
        by (auto split: option.splits)
      from "2.IH"(1) [OF s obj sk False this] skip_ws_Cons_le [OF sk] s show ?thesis by simp
    qed
  next
    case arr
    with "2.prems" s obtain d ds where sk: "skip_ws cs = d # ds"
      by (auto split: list.splits)
    show ?thesis
    proof (cases "d = CHR '']''")
      case True
      with "2.prems" s arr sk skip_ws_Cons_length [OF sk] show ?thesis by auto
    next
      case False
      with "2.prems" s arr sk obtain vs' where "parse_elements n (d # ds) = Some (vs', r)"
        by (auto split: option.splits)
      from "2.IH"(2) [OF s arr sk False this] skip_ws_Cons_le [OF sk] s show ?thesis by simp
    qed
  next
    case str
    with "2.prems" s obtain its where "string_items cs = Some (its, r)"
      by (auto split: option.splits)
    from string_items_shorter [OF this] s show ?thesis by simp
  next
    case other
    show ?thesis
    proof (cases "take 4 s = ''true'' \<or> take 5 s = ''false'' \<or> take 4 s = ''null''")
      case True
      with "2.prems" s other have "r = drop 4 s \<or> r = drop 5 s"
        by (auto split: if_splits)
      with s show ?thesis by auto
    next
      case False
      with "2.prems" s other obtain l where "number_literal s = Some (l, r)"
        by (auto split: option.splits)
      from number_literal_shorter [OF this] show ?thesis .
    qed
  qed
next
  case (3 s)
  then show ?case by simp
next
  case (4 n s)
  from "4.prems" obtain v r1 where v: "parse_value n s = Some (v, r1)"
    by (auto split: option.splits)
  from "4.prems" v obtain d ds where sk: "skip_ws r1 = d # ds"
    by (auto split: list.splits)
  have l1: "length r1 < length s" using "4.IH"(1) [OF v] .
  show ?case
  proof (cases "d = CHR '',''")
    case True
    with "4.prems" v sk obtain vs' where rec: "parse_elements n (skip_ws ds) = Some (vs', r)"
      by (auto split: option.splits)
    from "4.IH"(2) [OF v refl sk True rec] skip_ws_length [of ds] skip_ws_Cons_le [OF sk] l1
    show ?thesis by simp
  next
    case False
    with "4.prems" v sk have "r = ds" by (auto split: if_splits)
    with skip_ws_Cons_le [OF sk] l1 show ?thesis by simp
  qed
next
  case (5 s)
  then show ?case by simp
next
  case (6 n s)
  from "6.prems" obtain c cs where s: "s = c # cs" by (cases s) auto
  from "6.prems" s have c: "c = CHR 0x22" by (auto split: if_splits)
  from "6.prems" s c obtain kits r0 where k: "string_items cs = Some (kits, r0)"
    by (auto split: option.splits)
  from "6.prems" s c k obtain d ds where sk: "skip_ws r0 = d # ds"
    by (auto split: list.splits)
  from "6.prems" s c k sk have d: "d = CHR '':''" by (auto split: if_splits)
  from "6.prems" s c k sk d obtain v r2 where v: "parse_value n (skip_ws ds) = Some (v, r2)"
    by (auto split: option.splits)
  from "6.prems" s c k sk d v obtain e es where sk2: "skip_ws r2 = e # es"
    by (auto split: list.splits)
  have l0: "length r0 < length cs" using string_items_shorter [OF k] .
  have l1: "Suc (length ds) \<le> length r0" using skip_ws_Cons_le [OF sk] .
  have l2: "length r2 < length (skip_ws ds)"
    using "6.IH"(1) [of c cs "(kits, r0)" kits r0 d ds v r2] s c k sk d v by simp
  have l3: "Suc (length es) \<le> length r2" using skip_ws_Cons_le [OF sk2] .
  have l4: "length (skip_ws ds) \<le> length ds" by (rule skip_ws_length)
  show ?case
  proof (cases "e = CHR '',''")
    case True
    with "6.prems" s c k sk d v sk2 obtain kvs' where
      rec: "parse_members n (skip_ws es) = Some (kvs', r)"
      by (auto split: option.splits)
    have "length r < length (skip_ws es)"
      using "6.IH"(2) [of c cs "(kits, r0)" kits r0 d ds "(v, r2)" v r2 e es kvs' r]
        s c k sk d v sk2 True rec by simp
    with skip_ws_length [of es] l0 l1 l2 l3 l4 s show ?thesis by simp
  next
    case False
    with "6.prems" s c k sk d v sk2 have "r = es" by (auto split: if_splits)
    with l0 l1 l2 l3 l4 s show ?thesis by simp
  qed
qed

lemma parse_value_more:
  assumes M: "\<And>x. length x < length s \<Longrightarrow> parse_members (Suc n) x = parse_members n x"
    and E: "\<And>x. length x < length s \<Longrightarrow> parse_elements (Suc n) x = parse_elements n x"
  shows "parse_value (Suc (Suc n)) s = parse_value (Suc n) s"
proof (cases s)
  case Nil
  then show ?thesis by simp
next
  case (Cons c cs)
  show ?thesis
  proof (cases "skip_ws cs")
    case Nil
    with Cons show ?thesis by simp
  next
    case inner: (Cons d ds)
    from skip_ws_Cons_le [OF inner] have "Suc (length ds) \<le> length cs" .
    with Cons inner show ?thesis
      by (simp add: M E del: parse_members.simps parse_elements.simps)
  qed
qed

lemma parse_elements_more:
  assumes V: "parse_value (Suc n) s = parse_value n s"
    and E: "\<And>x. Suc (length x) < length s \<Longrightarrow> parse_elements (Suc n) x = parse_elements n x"
  shows "parse_elements (Suc (Suc n)) s = parse_elements (Suc n) s"
proof (cases "parse_value n s")
  case None
  with V show ?thesis by simp
next
  case (Some p)
  obtain v r where p: "p = (v, r)" by (cases p)
  from parse_shorter(1) Some p have l: "length r < length s" by blast
  show ?thesis
  proof (cases "skip_ws r")
    case Nil
    with V Some p show ?thesis by simp
  next
    case (Cons d ds)
    from skip_ws_Cons_le [OF Cons] skip_ws_length [of ds] l
    have "Suc (length (skip_ws ds)) < length s" by simp
    from E [OF this] V Some p Cons show ?thesis
      by (simp del: parse_value.simps)
  qed
qed

lemma parse_members_more:
  assumes V: "\<And>x. length x < length s \<Longrightarrow> parse_value (Suc n) x = parse_value n x"
    and M: "\<And>x. length x < length s \<Longrightarrow> parse_members (Suc n) x = parse_members n x"
  shows "parse_members (Suc (Suc n)) s = parse_members (Suc n) s"
proof (cases s)
  case Nil
  then show ?thesis by simp
next
  case (Cons c cs)
  show ?thesis
  proof (cases "string_items cs")
    case None
    with Cons show ?thesis by simp
  next
    case (Some p)
    obtain kits r0 where p: "p = (kits, r0)" by (cases p)
    from string_items_shorter Some p have l0: "length r0 < length cs" by blast
    show ?thesis
    proof (cases "skip_ws r0")
      case Nil
      with Cons Some p show ?thesis by simp
    next
      case colon: (Cons d ds)
      from skip_ws_Cons_le [OF colon] skip_ws_length [of ds] l0 Cons
      have l1: "length (skip_ws ds) < length s" by simp
      note V1 = V [OF l1]
      show ?thesis
      proof (cases "parse_value n (skip_ws ds)")
        case None
        with Cons Some p colon V1 show ?thesis by (simp del: parse_value.simps)
      next
        case val: (Some pv)
        obtain v r2 where pv: "pv = (v, r2)" by (cases pv)
        from parse_shorter(1) val pv have l2: "length r2 < length (skip_ws ds)" by blast
        show ?thesis
        proof (cases "skip_ws r2")
          case Nil
          with Cons Some p colon V1 val pv show ?thesis by (simp del: parse_value.simps)
        next
          case sep: (Cons e es)
          from skip_ws_Cons_le [OF sep] skip_ws_length [of es] l1 l2
          have "length (skip_ws es) < length s" by simp
          from M [OF this] Cons Some p colon V1 val pv sep show ?thesis
            by (simp del: parse_value.simps)
        qed
      qed
    qed
  qed
qed

lemma parse_fuel_step:
  "(\<forall>s. 2 * length s < n \<longrightarrow> parse_value (Suc n) s = parse_value n s) \<and>
   (\<forall>s. 2 * length s + 2 \<le> n \<longrightarrow> parse_elements (Suc n) s = parse_elements n s) \<and>
   (\<forall>s. 2 * length s < n \<longrightarrow> parse_members (Suc n) s = parse_members n s)"
proof (induction n)
  case 0
  show ?case by simp
next
  case (Suc n)
  then have V: "2 * length s < n \<Longrightarrow> parse_value (Suc n) s = parse_value n s"
    and E: "2 * length s + 2 \<le> n \<Longrightarrow> parse_elements (Suc n) s = parse_elements n s"
    and M: "2 * length s < n \<Longrightarrow> parse_members (Suc n) s = parse_members n s" for s
    by blast+
  have "parse_value (Suc (Suc n)) s = parse_value (Suc n) s" if "2 * length s < Suc n" for s
    using that by (intro parse_value_more M E) simp_all
  moreover
  have "parse_elements (Suc (Suc n)) s = parse_elements (Suc n) s" if "2 * length s + 2 \<le> Suc n" for s
    using that by (intro parse_elements_more V E) simp_all
  moreover
  have "parse_members (Suc (Suc n)) s = parse_members (Suc n) s" if "2 * length s < Suc n" for s
    using that by (intro parse_members_more V M) simp_all
  ultimately show ?case by blast
qed

lemma parse_value_fuel:
  assumes "2 * length s < n"
  shows "parse_value (n + k) s = parse_value n s"
proof (induction k)
  case 0
  show ?case by simp
next
  case (Suc k)
  from assms have "2 * length s < n + k" by simp
  with parse_fuel_step [of "n + k"] have "parse_value (Suc (n + k)) s = parse_value (n + k) s"
    by blast
  with Suc show ?case by simp
qed

lemma JSON_parse_fuel:
  assumes "2 * length t < n"
  shows "parse_value n (skip_ws t) = parse_value (Suc (2 * length t)) (skip_ws t)"
proof -
  from assms obtain k where n: "n = Suc (2 * length t) + k"
    by (metis Suc_leI le_Suc_ex)
  have "2 * length (skip_ws t) < Suc (2 * length t)"
    using skip_ws_length [of t] by simp
  from parse_value_fuel [OF this, of k] n show ?thesis by simp
qed

subsection \<open>The state parameter\<close>

text \<open>Base64: decoding the encoding of any bytes gives the bytes back.\<close>

lemma unbase64_pad: "unbase64 (CHR ''='') = None"
  by (simp add: unbase64_def)

lemma unbase64_digit: "n < 64 \<Longrightarrow> unbase64 (b64_digit n) = Some n"
  by (auto simp: unbase64_def b64_digit_def Let_def)

lemma b64_digit_not_pad: "n < 64 \<Longrightarrow> b64_digit n \<noteq> CHR ''=''"
  using unbase64_digit [of n] unbase64_pad by auto

lemma sextets_digit: "n < 64 \<Longrightarrow> sextets (b64_digit n # cs) = n # sextets cs"
  by (simp add: unbase64_digit b64_digit_not_pad)

lemma sextets_pad: "sextets (CHR ''='' # cs) = []"
  by simp

lemma byte1: "y < 256 \<Longrightarrow> (x div 4) * 4 + (x mod 4 * 16 + y div 16) div 16 = (x::nat)"
proof -
  assume "y < 256"
  then have "y div 16 < 16" by simp
  then have "(x mod 4 * 16 + y div 16) div 16 = x mod 4" by simp
  then show ?thesis by simp
qed

lemma byte2: "y < 256 \<Longrightarrow> z < 256 \<Longrightarrow>
    (x mod 4 * 16 + y div 16) mod 16 * 16 + (y mod 16 * 4 + z div 64) div 4 = (y::nat)"
proof -
  assume "y < 256" "z < 256"
  then have "y div 16 < 16" "z div 64 < 4" by simp_all
  then have "(x mod 4 * 16 + y div 16) mod 16 = y div 16"
    and "(y mod 16 * 4 + z div 64) div 4 = y mod 16" by simp_all
  then show ?thesis by simp
qed

lemma byte3: "z < 256 \<Longrightarrow> (y mod 16 * 4 + z div 64) mod 4 * 64 + z mod 64 = (z::nat)"
proof -
  assume "z < 256"
  then have "z div 64 < 4" by simp
  then have "(y mod 16 * 4 + z div 64) mod 4 = z div 64" by simp
  then show ?thesis by simp
qed

lemma digit_bounds:
  fixes x y z :: nat
  assumes "x < 256" "y < 256" "z < 256"
  shows "x div 4 < 64" "x mod 4 * 16 + y div 16 < 64" "y mod 16 * 4 + z div 64 < 64"
    "z mod 64 < 64" "x mod 4 * 16 < 64" "y mod 16 * 4 < 64"
proof -
  have a: "x mod 4 < 4" "y mod 16 < 16" by simp_all
  have b: "y div 16 < 16" "z div 64 < 4" using assms by simp_all
  show "x div 4 < 64" using assms by simp
  show "x mod 4 * 16 + y div 16 < 64" using a b by linarith
  show "y mod 16 * 4 + z div 64 < 64" using a b by linarith
  show "z mod 64 < 64" by simp
  show "x mod 4 * 16 < 64" using a by linarith
  show "y mod 16 * 4 < 64" using a by linarith
qed

lemma sextets_round_trip: "sextets_bytes (sextets (base64_encode bs)) = bs"
proof (induction bs rule: base64_encode.induct)
  case 1
  show ?case by simp
next
  case (2 a)
  have x: "(of_char a :: nat) < 256" by simp
  show ?case
    using digit_bounds [OF x x x] byte1 [of 0 "of_char a"]
    by (simp add: Let_def sextets_digit sextets_pad del: sextets.simps)
next
  case (3 a b)
  have x: "(of_char a :: nat) < 256" and y: "(of_char b :: nat) < 256" by simp_all
  show ?case
    using digit_bounds [OF x y y] byte1 [OF y, of "of_char a"] byte2 [of "of_char b" 0 "of_char a"]
    by (simp add: Let_def sextets_digit sextets_pad del: sextets.simps)
next
  case (4 a b c rest)
  have x: "(of_char a :: nat) < 256" and y: "(of_char b :: nat) < 256"
    and z: "(of_char c :: nat) < 256" by simp_all
  show ?case
    using 4 digit_bounds [OF x y z] byte1 [OF y, of "of_char a"]
      byte2 [OF y z, of "of_char a"] byte3 [OF z, of "of_char b"]
    by (simp add: Let_def sextets_digit del: sextets.simps)
qed

lemma b64_digit_ascii: "(of_char (b64_digit n) :: nat) < 0x80"
  by (auto simp: b64_digit_def)

lemma base64_encode_ascii: "c \<in> set (base64_encode bs) \<Longrightarrow> (of_char c :: nat) < 0x80"
  by (induction bs arbitrary: c rule: base64_encode.induct)
     (auto simp: Let_def b64_digit_ascii)

lemma low_bytes_ascii: "(\<And>c. c \<in> set s \<Longrightarrow> (of_char c :: nat) < 0x80) \<Longrightarrow> low_bytes s = s"
  unfolding low_bytes_def by (induction s) simp_all

lemma base64_round_trip: "base64_decode (base64_encode bs) = bs"
  unfolding base64_decode_def
  by (simp add: low_bytes_ascii [OF base64_encode_ascii] sextets_round_trip)

text \<open>
  UTF-8: well-formed text is text that \<open>buf.toString()\<close> returns unchanged; quoting
  such text for JSON keeps it well-formed.
\<close>

lemma utf8_ascii: "(of_char b :: nat) < 0x80 \<Longrightarrow> utf8_toString (b # xs) = b # utf8_toString xs"
  by simp

lemma utf8_two:
  "0xC2 \<le> (of_char b :: nat) \<Longrightarrow> (of_char b :: nat) \<le> 0xDF \<Longrightarrow> in_range 0x80 0xBF c1 \<Longrightarrow>
     utf8_toString (b # c1 # xs) = b # c1 # utf8_toString xs"
  by (simp add: Let_def)

lemma utf8_three:
  "0xE0 \<le> (of_char b :: nat) \<Longrightarrow> (of_char b :: nat) \<le> 0xEF \<Longrightarrow>
   in_range (if (of_char b :: nat) = 0xE0 then 0xA0 else 0x80)
            (if (of_char b :: nat) = 0xED then 0x9F else 0xBF) c1 \<Longrightarrow>
   in_range 0x80 0xBF c2 \<Longrightarrow>
     utf8_toString (b # c1 # c2 # xs) = b # c1 # c2 # utf8_toString xs"
  by (simp add: Let_def)

lemma utf8_four:
  "0xF0 \<le> (of_char b :: nat) \<Longrightarrow> (of_char b :: nat) \<le> 0xF4 \<Longrightarrow>
   in_range (if (of_char b :: nat) = 0xF0 then 0x90 else 0x80)
            (if (of_char b :: nat) = 0xF4 then 0x8F else 0xBF) c1 \<Longrightarrow>
   in_range 0x80 0xBF c2 \<Longrightarrow> in_range 0x80 0xBF c3 \<Longrightarrow>
     utf8_toString (b # c1 # c2 # c3 # xs) = b # c1 # c2 # c3 # utf8_toString xs"
  by (simp add: Let_def)

lemma replacement_head: "replacement @ xs = b # bs \<Longrightarrow> (of_char b :: nat) = 0xEF"
  by (auto simp: replacement_def)

lemma replacement_second:
  "replacement @ xs = b # c # bs \<Longrightarrow> (of_char c :: nat) = 0xBF"
  by (auto simp: replacement_def)

lemma replacement_third:
  "replacement @ xs = b # c # d # bs \<Longrightarrow> (of_char d :: nat) = 0xBD"
  by (auto simp: replacement_def)

lemma replacement_length: "replacement = b # bs \<Longrightarrow> length bs = 2"
  by (auto simp: replacement_def)

lemma utf8_fixed_cons:
  assumes fixed: "utf8_toString (b # bs) = b # bs"
  shows "((of_char b :: nat) < 0x80 \<and> utf8_toString bs = bs) \<or>
         (\<exists>c1 r. bs = c1 # r \<and> 0xC2 \<le> (of_char b :: nat) \<and> (of_char b :: nat) \<le> 0xDF \<and>
            in_range 0x80 0xBF c1 \<and> utf8_toString r = r) \<or>
         (\<exists>c1 c2 r. bs = c1 # c2 # r \<and> 0xE0 \<le> (of_char b :: nat) \<and> (of_char b :: nat) \<le> 0xEF \<and>
            in_range (if (of_char b :: nat) = 0xE0 then 0xA0 else 0x80)
                     (if (of_char b :: nat) = 0xED then 0x9F else 0xBF) c1 \<and>
            in_range 0x80 0xBF c2 \<and> utf8_toString r = r) \<or>
         (\<exists>c1 c2 c3 r. bs = c1 # c2 # c3 # r \<and> 0xF0 \<le> (of_char b :: nat) \<and>
            (of_char b :: nat) \<le> 0xF4 \<and>
            in_range (if (of_char b :: nat) = 0xF0 then 0x90 else 0x80)
                     (if (of_char b :: nat) = 0xF4 then 0x8F else 0xBF) c1 \<and>
            in_range 0x80 0xBF c2 \<and> in_range 0x80 0xBF c3 \<and> utf8_toString r = r)"
proof -
  let ?k = "of_char b :: nat"
  consider (one) "?k < 0x80" | (two) "0xC2 \<le> ?k" "?k \<le> 0xDF" | (three) "0xE0 \<le> ?k" "?k \<le> 0xEF"
    | (four) "0xF0 \<le> ?k" "?k \<le> 0xF4" | (bad) "0x80 \<le> ?k" "?k < 0xC2" | (worse) "0xF4 < ?k"
    by linarith
  then show ?thesis
  proof cases
    case one
    with fixed show ?thesis by simp
  next
    case two
    show ?thesis
    proof (cases bs)
      case Nil
      with two fixed show ?thesis by (auto simp: Let_def dest: replacement_length)
    next
      case (Cons c1 r)
      show ?thesis
      proof (cases "in_range 0x80 0xBF c1")
        case True
        with two Cons fixed show ?thesis by (simp add: Let_def)
      next
        case False
        with two Cons fixed have "replacement @ utf8_toString bs = b # bs" by (simp add: Let_def)
        from replacement_head [OF this] two show ?thesis by simp
      qed
    qed
  next
    case three
    let ?lo = "if ?k = 0xE0 then 0xA0 else (0x80::nat)"
    let ?hi = "if ?k = 0xED then 0x9F else (0xBF::nat)"
    show ?thesis
    proof (cases bs)
      case Nil
      with three fixed show ?thesis by (auto simp: Let_def dest: replacement_length)
    next
      case (Cons c1 r1)
      show ?thesis
      proof (cases "in_range ?lo ?hi c1")
        case range1: True
        show ?thesis
        proof (cases r1)
          case Nil
          with three Cons range1 fixed show ?thesis by (auto simp: Let_def dest: replacement_length)
        next
          case inner: (Cons c2 r2)
          show ?thesis
          proof (cases "in_range 0x80 0xBF c2")
            case True
            with three Cons inner range1 fixed show ?thesis by (simp add: Let_def)
          next
            case False
            with three Cons inner range1 fixed
            have "replacement @ utf8_toString r1 = b # c1 # c2 # r2" by (simp add: Let_def)
            from replacement_third [OF this] False show ?thesis by (simp add: in_range_def)
          qed
        qed
      next
        case False
        with three Cons fixed have eq: "replacement @ utf8_toString bs = b # c1 # r1"
          by (simp add: Let_def)
        from replacement_head [OF eq] replacement_second [OF eq] False show ?thesis
          by (simp add: in_range_def)
      qed
    qed
  next
    case four
    let ?lo = "if ?k = 0xF0 then 0x90 else (0x80::nat)"
    let ?hi = "if ?k = 0xF4 then 0x8F else (0xBF::nat)"
    have no: "replacement @ xs \<noteq> b # ys" for xs ys
      using replacement_head [of xs b ys] four by auto
    show ?thesis
    proof (cases bs)
      case Nil
      with four fixed no [of "[]"] show ?thesis by (simp add: Let_def)
    next
      case (Cons c1 r1)
      show ?thesis
      proof (cases "in_range ?lo ?hi c1")
        case range1: True
        show ?thesis
        proof (cases r1)
          case Nil
          with four Cons range1 fixed no [of "[]"] show ?thesis by (simp add: Let_def)
        next
          case inner: (Cons c2 r2)
          show ?thesis
          proof (cases "in_range 0x80 0xBF c2")
            case range2: True
            show ?thesis
            proof (cases r2)
              case Nil
              with four Cons inner range1 range2 fixed no [of "[]"] show ?thesis
                by (simp add: Let_def)
            next
              case last: (Cons c3 r3)
              show ?thesis
              proof (cases "in_range 0x80 0xBF c3")
                case True
                with four Cons inner last range1 range2 fixed show ?thesis by (simp add: Let_def)
              next
                case False
                with four Cons inner last range1 range2 fixed no [of "utf8_toString r2" bs]
                show ?thesis by (simp add: Let_def)
              qed
            qed
          next
            case False
            with four Cons inner range1 fixed no [of "utf8_toString r1" bs]
            show ?thesis by (simp add: Let_def)
          qed
        qed
      next
        case False
        with four Cons fixed no [of "utf8_toString bs" bs] show ?thesis by (simp add: Let_def)
      qed
    qed
  next
    case bad
    with fixed have "replacement @ utf8_toString bs = b # bs" by (simp add: Let_def)
    from replacement_head [OF this] bad show ?thesis by simp
  next
    case worse
    with fixed have "replacement @ utf8_toString bs = b # bs" by (simp add: Let_def)
    from replacement_head [OF this] worse show ?thesis by simp
  qed
qed

lemma hex_digit_ascii: "n < 16 \<Longrightarrow> (of_char (hex_digit n) :: nat) < 0x80"
  by (simp add: hex_digit_def)

lemma quote_char_ascii:
  "(of_char c :: nat) < 0x80 \<Longrightarrow> d \<in> set (quote_char c) \<Longrightarrow> (of_char d :: nat) < 0x80"
  by (auto simp: quote_char_def hex_digit_ascii split: if_splits)

lemma quote_char_high: "0x80 \<le> (of_char c :: nat) \<Longrightarrow> quote_char c = [c]"
  by (auto simp: quote_char_def)

lemma in_range_high: "in_range lo hi c \<Longrightarrow> 0x80 \<le> lo \<Longrightarrow> 0x80 \<le> (of_char c :: nat)"
  by (simp add: in_range_def)

lemma utf8_ascii_append:
  "(\<And>c. c \<in> set xs \<Longrightarrow> (of_char c :: nat) < 0x80) \<Longrightarrow>
     utf8_toString (xs @ ys) = xs @ utf8_toString ys"
  by (induction xs) (simp_all del: utf8_toString.simps add: utf8_ascii)

lemma utf8_quoted:
  "utf8_toString s = s \<Longrightarrow>
     utf8_toString (concat (map quote_char s) @ t) = concat (map quote_char s) @ utf8_toString t"
proof (induction s rule: length_induct)
  case (1 s)
  show ?case
  proof (cases s)
    case Nil
    then show ?thesis by simp
  next
    case (Cons b bs)
    let ?k = "of_char b :: nat"
    let ?q = "\<lambda>xs. concat (map quote_char xs)"
    from "1.prems" Cons have fixed: "utf8_toString (b # bs) = b # bs" by simp
    have step: "utf8_toString (?q r @ t) = ?q r @ utf8_toString t"
      if "length r < length s" and "utf8_toString r = r" for r
      using "1.IH" that by blast
    from utf8_fixed_cons [OF fixed] consider
        (one) "?k < 0x80" "utf8_toString bs = bs"
      | (two) c1 r where "bs = c1 # r" "0xC2 \<le> ?k" "?k \<le> 0xDF" "in_range 0x80 0xBF c1"
          "utf8_toString r = r"
      | (three) c1 c2 r where "bs = c1 # c2 # r" "0xE0 \<le> ?k" "?k \<le> 0xEF"
          "in_range (if ?k = 0xE0 then 0xA0 else 0x80) (if ?k = 0xED then 0x9F else 0xBF) c1"
          "in_range 0x80 0xBF c2" "utf8_toString r = r"
      | (four) c1 c2 c3 r where "bs = c1 # c2 # c3 # r" "0xF0 \<le> ?k" "?k \<le> 0xF4"
          "in_range (if ?k = 0xF0 then 0x90 else 0x80) (if ?k = 0xF4 then 0x8F else 0xBF) c1"
          "in_range 0x80 0xBF c2" "in_range 0x80 0xBF c3" "utf8_toString r = r"
      by blast
    then show ?thesis
    proof cases
      case one
      have "utf8_toString (quote_char b @ (?q bs @ t)) = quote_char b @ utf8_toString (?q bs @ t)"
        by (rule utf8_ascii_append) (rule quote_char_ascii [OF one(1)])
      also have "utf8_toString (?q bs @ t) = ?q bs @ utf8_toString t"
        using step [of bs] one(2) Cons by simp
      finally show ?thesis using Cons by simp
    next
      case two
      have q: "quote_char b = [b]" "quote_char c1 = [c1]"
        using two(2) in_range_high [OF two(4)] by (simp_all add: quote_char_high)
      have "utf8_toString (?q r @ t) = ?q r @ utf8_toString t"
        using step [of r] two(1,5) Cons by simp
      then show ?thesis
        using Cons two(1) q utf8_two [OF two(2,3,4)] by (simp del: utf8_toString.simps)
    next
      case three
      have "0x80 \<le> (if ?k = 0xE0 then 0xA0 else (0x80::nat))" by simp
      then have q: "quote_char b = [b]" "quote_char c1 = [c1]" "quote_char c2 = [c2]"
        using three(2) in_range_high [OF three(4)] in_range_high [OF three(5)]
        by (simp_all add: quote_char_high)
      have "utf8_toString (?q r @ t) = ?q r @ utf8_toString t"
        using step [of r] three(1,6) Cons by simp
      then show ?thesis
        using Cons three(1) q utf8_three [OF three(2,3,4,5)] by (simp del: utf8_toString.simps)
    next
      case four
      have "0x80 \<le> (if ?k = 0xF0 then 0x90 else (0x80::nat))" by simp
      then have q: "quote_char b = [b]" "quote_char c1 = [c1]" "quote_char c2 = [c2]"
          "quote_char c3 = [c3]"
        using four(2) in_range_high [OF four(4)] in_range_high [OF four(5)]
          in_range_high [OF four(6)]
        by (simp_all add: quote_char_high)
      have "utf8_toString (?q r @ t) = ?q r @ utf8_toString t"
        using step [of r] four(1,7) Cons by simp
      then show ?thesis
        using Cons four(1) q utf8_four [OF four(2,3,4,5,6)] by (simp del: utf8_toString.simps)
    qed
  qed
qed

lemma utf8_envelope:
  assumes "utf8_toString uid = uid"
  shows "utf8_toString (stringify_userId uid) = stringify_userId uid"
proof -
  have split: "stringify_userId uid =
      (''{'' @ QuoteJSONString ''userId'' @ '':'' @ [CHR 0x22]) @
      (concat (map quote_char uid) @ [CHR 0x22, CHR ''}''])"
    by (simp add: stringify_userId_def QuoteJSONString_def)
  have pre: "utf8_toString ((''{'' @ QuoteJSONString ''userId'' @ '':'' @ [CHR 0x22]) @ ys) =
      (''{'' @ QuoteJSONString ''userId'' @ '':'' @ [CHR 0x22]) @ utf8_toString ys" for ys
    by (rule utf8_ascii_append) (auto simp: QuoteJSONString_def quote_char_def)
  have post: "utf8_toString [CHR 0x22, CHR ''}''] = [CHR 0x22, CHR ''}'']"
    by simp
  show ?thesis
    unfolding split pre utf8_quoted [OF assms] post ..
qed

text \<open>JSON: the parser reads the envelope back.\<close>

lemma hex_val_hex_digit: "n < 16 \<Longrightarrow> hex_val (hex_digit n) = Some n"
  by (auto simp: hex_val_def hex_digit_def Let_def)

lemma hex4_control:
  "k < 0x20 \<Longrightarrow> hex4 (CHR ''0'') (CHR ''0'') (hex_digit (k div 16)) (hex_digit (k mod 16)) = Some k"
proof -
  assume "k < 0x20"
  then have "k div 16 < 16" "k mod 16 < 16" by simp_all
  then have "hex_val (hex_digit (k div 16)) = Some (k div 16)"
    "hex_val (hex_digit (k mod 16)) = Some (k mod 16)"
    by (simp_all add: hex_val_hex_digit)
  moreover have "hex_val (CHR ''0'') = Some 0" by (simp add: hex_val_def)
  ultimately show ?thesis by (simp add: hex4_def)
qed

lemma render_unit_low: "u < 0x80 \<Longrightarrow> render (Unit u # its) = char_of u # render its"
proof (cases its)
  case Nil
  assume "u < 0x80"
  with Nil show ?thesis by (simp add: utf8_of_def)
next
  case (Cons i its')
  assume "u < 0x80"
  with Cons show ?thesis by (cases i) (simp_all add: utf8_of_def)
qed

lemma string_items_quote_char:
  assumes "string_items tail = Some (its, rest)"
  shows "\<exists>it. string_items (quote_char b @ tail) = Some (it # its, rest) \<and>
              render (it # its) = b # render its"
proof -
  let ?k = "of_char b :: nat"
  consider (simple) "b = CHR 0x08 \<or> b = CHR 0x09 \<or> b = CHR 0x0A \<or> b = CHR 0x0C \<or> b = CHR 0x0D \<or>
        b = CHR 0x22 \<or> b = CHR 0x5C"
    | (control) "b \<noteq> CHR 0x08" "b \<noteq> CHR 0x09" "b \<noteq> CHR 0x0A" "b \<noteq> CHR 0x0C"
        "b \<noteq> CHR 0x0D" "b \<noteq> CHR 0x22" "b \<noteq> CHR 0x5C" "?k < 0x20"
    | (plain) "b \<noteq> CHR 0x08" "b \<noteq> CHR 0x09" "b \<noteq> CHR 0x0A" "b \<noteq> CHR 0x0C"
        "b \<noteq> CHR 0x0D" "b \<noteq> CHR 0x22" "b \<noteq> CHR 0x5C" "\<not> ?k < 0x20"
    by blast
  then show ?thesis
  proof cases
    case simple
    then show ?thesis using assms by (auto simp: quote_char_def unescape_def)
  next
    case control
    then have q: "quote_char b =
        [CHR 0x5C, CHR ''u'', CHR ''0'', CHR ''0'', hex_digit (?k div 16), hex_digit (?k mod 16)]"
      by (simp add: quote_char_def)
    have "string_items (quote_char b @ tail) = Some (Unit ?k # its, rest)"
      using assms hex4_control [OF control(8)] by (simp add: q)
    moreover have "render (Unit ?k # its) = b # render its"
      using render_unit_low [of ?k its] control(8) by simp
    ultimately show ?thesis by blast
  next
    case plain
    then have "quote_char b = [b]" by (simp add: quote_char_def)
    then show ?thesis using assms plain by simp
  qed
qed

lemma string_items_quoted:
  "\<exists>its. string_items (concat (map quote_char s) @ CHR 0x22 # rest) = Some (its, rest) \<and>
         render its = s"
proof (induction s)
  case Nil
  show ?case by simp
next
  case (Cons b bs)
  then obtain its where
    "string_items (concat (map quote_char bs) @ CHR 0x22 # rest) = Some (its, rest)"
    and r: "render its = bs"
    by blast
  from string_items_quote_char [OF this(1), of b] r show ?case
    by (auto simp del: string_items.simps render.simps)
qed

lemma parse_envelope:
  "parse_value (Suc (Suc (Suc n))) (stringify_userId uid) = Some (JObj [(''userId'', JStr uid)], [])"
proof -
  let ?quoted = "CHR 0x22 # concat (map quote_char uid) @ CHR 0x22 # ''}''"
  obtain kits where key:
    "string_items (concat (map quote_char ''userId'') @ CHR 0x22 # CHR '':'' # ?quoted) =
       Some (kits, CHR '':'' # ?quoted)"
    and kr: "render kits = ''userId''"
    using string_items_quoted [of "''userId''" "CHR '':'' # ?quoted"] by blast
  obtain its where val:
    "string_items (concat (map quote_char uid) @ CHR 0x22 # ''}'') = Some (its, ''}'')"
    and vr: "render its = uid"
    using string_items_quoted [of uid "''}''"] by blast
  have v: "parse_value (Suc n) ?quoted = Some (JStr uid, ''}'')"
    using val vr by (simp del: string_items.simps)
  have m: "parse_members (Suc (Suc n))
             (CHR 0x22 # concat (map quote_char ''userId'') @ CHR 0x22 # CHR '':'' # ?quoted) =
           Some ([(''userId'', JStr uid)], [])"
    using key kr v
    by (simp del: string_items.simps parse_value.simps add: skip_ws_def is_ws_def)
  have shape: "stringify_userId uid =
      CHR ''{'' # CHR 0x22 # concat (map quote_char ''userId'') @ CHR 0x22 # CHR '':'' # ?quoted"
    by (simp add: stringify_userId_def QuoteJSONString_def)
  show ?thesis
    unfolding shape using m
    by (simp del: string_items.simps parse_members.simps add: skip_ws_def is_ws_def)
qed

lemma JSON_parse_envelope:
  "JSON_parse (stringify_userId uid) = Some (JObj [(''userId'', JStr uid)])"
proof -
  have "length (stringify_userId uid) \<ge> 1"
    by (simp add: stringify_userId_def)
  then obtain n where n: "2 * length (stringify_userId uid) = Suc (Suc n)"
    by (metis One_nat_def Suc_le_D mult_2 add_Suc add_Suc_right)
  have "skip_ws (stringify_userId uid) = stringify_userId uid"
    by (simp add: stringify_userId_def skip_ws_def is_ws_def)
  then show ?thesis
    unfolding JSON_parse_def n using parse_envelope [of n uid]
    by (simp add: skip_ws_def)
qed

text \<open>
  C5. For every \<open>userId\<close> (a string, that is well-formed UTF-8 text), decoding the
  \<open>state\<close> that \<open>/auth/start\<close> builds from it gives that \<open>userId\<close> back.
\<close>

theorem state_round_trip:
  assumes "utf8_toString uid = uid"
  shows "decodeState (encodeState uid) = Some (JStr uid)"
  by (simp add: decodeState_def encodeState_def utf8_bytes_def base64_round_trip
        utf8_envelope [OF assms] JSON_parse_envelope obj_get_def)

theorem state_round_trip_witness:
  "encodeState ''abc'' = ''eyJ1c2VySWQiOiJhYmMifQ=='' \<and>
   decodeState (encodeState ''abc'') = Some (JStr ''abc'') \<and>
   decodeState (encodeState [CHR ''a'', CHR 0x22, CHR 0x5C, CHR 0x0A, CHR 0x01, CHR ''~'', CHR 0xC3, CHR 0xA9]) =
     Some (JStr [CHR ''a'', CHR 0x22, CHR 0x5C, CHR 0x0A, CHR 0x01, CHR ''~'', CHR 0xC3, CHR 0xA9])"
proof -
  have "encodeState ''abc'' = ''eyJ1c2VySWQiOiJhYmMifQ==''"
    by code_simp
  moreover have "utf8_toString ''abc'' = ''abc''"
    by simp
  moreover have
    "utf8_toString [CHR ''a'', CHR 0x22, CHR 0x5C, CHR 0x0A, CHR 0x01, CHR ''~'', CHR 0xC3, CHR 0xA9] =
       [CHR ''a'', CHR 0x22, CHR 0x5C, CHR 0x0A, CHR 0x01, CHR ''~'', CHR 0xC3, CHR 0xA9]"
    by (simp add: in_range_def)
  ultimately show ?thesis
    using state_round_trip [of "''abc''"]
      state_round_trip [of "[CHR ''a'', CHR 0x22, CHR 0x5C, CHR 0x0A, CHR 0x01, CHR ''~'', CHR 0xC3, CHR 0xA9]"]
    by blast
qed

subsection \<open>The OAuth callback\<close>

lemma example_state: "decodeState ''eyJ1c2VySWQiOiJhYmMifQ=='' = Some (JStr ''abc'')"
  by code_simp

text \<open>
  C7. When the long-lived exchange answers with a token and no \<open>expires_in\<close>, the
  expiry the callback writes to the store, and returns once the store has taken the write,
  is the time of that exchange plus 5,184,000 seconds (in milliseconds).
\<close>

theorem callback_long_lived_default_expiry:
  fixes env :: oauth_env
  assumes "\<not> truthy_str (q ''error'')"
    and "q ''code'' = Some code" and "code \<noteq> []"
    and "q ''state'' = Some st" and "st \<noteq> []"
    and "decodeState st = Some uid"
    and "token_get env tokenUrl (tokenParams (config env) code) = Inr tr"
    and "access_token tr = Some tok" and "tok \<noteq> []"
    and "token_get env tokenUrl (longLivedParams (config env) tok) = Inr ll"
    and "access_token ll = Some ltok" and "ltok \<noteq> []"
    and "expires_in ll = None"
  shows "\<exists>td resp. auth_callback env q = (Some td, resp) \<and>
           td_accessToken td = ltok \<and>
           td_expiresAt td = Some (now_upgraded env + 5184000 * 1000) \<and>
           (case findOneAndUpdate env td of
              None \<Rightarrow> status resp = 200 \<and>
                       obj_get (body resp) ''expiresAt'' = JDate (now_upgraded env + 5184000 * 1000)
            | Some error \<Rightarrow> resp = callback_failure error)"
proof -
  define expiry where "expiry = now_upgraded env + 5184000 * 1000"
  define td where
    "td = \<lparr>td_userId = uid, td_accessToken = ltok, td_expiresAt = Some expiry,
           td_tokenType = or_default (token_type tr) ''Bearer'',
           td_adAccountId = discoverAdAccount env ltok\<rparr>"
  have upgraded:
    "longLived env tok (shortExpiresAt (now_exchanged env) (expires_in tr)) = (ltok, Some expiry)"
    using assms(10-13) by (simp add: longLived_def expiry_def)
  have run: "auth_callback env q =
      (Some td,
       case findOneAndUpdate env td of
         None \<Rightarrow>
           \<lparr>status = 200,
            body = [(''success'', JBool True), (''message'', JStr ''Authentication successful''),
                    (''userId'', uid), (''expiresAt'', nullable_date (Some expiry))]\<rparr>
       | Some error \<Rightarrow> callback_failure error)"
    using assms(1-9) upgraded
    by (simp add: auth_callback_def truthy_str_def template_def td_def split: option.splits)
  show ?thesis
    unfolding run
    by (cases "findOneAndUpdate env td")
       (simp_all add: td_def expiry_def obj_get_def nullable_date_def)
qed

theorem callback_long_lived_default_expiry_witness:
  "auth_callback
     (example_oauth_env (Inr \<lparr>access_token = Some ''long'', expires_in = None, token_type = None\<rparr>))
     example_callback_query =
   (Some \<lparr>td_userId = JStr ''abc'', td_accessToken = ''long'', td_expiresAt = Some 5184002000,
          td_tokenType = ''Bearer'', td_adAccountId = Some ''act_111''\<rparr>,
    \<lparr>status = 200,
     body = [(''success'', JBool True), (''message'', JStr ''Authentication successful''),
             (''userId'', JStr ''abc''), (''expiresAt'', JDate 5184002000)]\<rparr>)"
  using callback_long_lived_default_expiry
    [where env = "example_oauth_env (Inr \<lparr>access_token = Some ''long'', expires_in = None, token_type = None\<rparr>)"
       and q = example_callback_query and code = "''c0de''" and st = "''eyJ1c2VySWQiOiJhYmMifQ==''"
       and uid = "JStr ''abc''" and tok = "''short''" and ltok = "''long''"
       and tr = "\<lparr>access_token = Some ''short'', expires_in = Some 3600, token_type = None\<rparr>"
       and ll = "\<lparr>access_token = Some ''long'', expires_in = None, token_type = None\<rparr>"]
    example_state
  by (simp add: auth_callback_def longLived_def example_oauth_env_def example_callback_query_def
        example_config_def truthy_str_def template_def tokenParams_def longLivedParams_def
        obj_get_def shortExpiresAt_def discoverAdAccount_def or_default_def nullable_date_def
        str_val_def)

text \<open>
  C8. When the long-lived exchange throws, the callback goes on: it writes the credential
  with the short-lived token and the expiry computed from the first exchange, and answers
  200 with \<open>success: true\<close> once the store has taken the write.
\<close>

theorem callback_tolerates_failed_upgrade:
  fixes env :: oauth_env
  assumes "\<not> truthy_str (q ''error'')"
    and "q ''code'' = Some code" and "code \<noteq> []"
    and "q ''state'' = Some st" and "st \<noteq> []"
    and "decodeState st = Some uid"
    and "token_get env tokenUrl (tokenParams (config env) code) = Inr tr"
    and "access_token tr = Some tok" and "tok \<noteq> []"
    and "token_get env tokenUrl (longLivedParams (config env) tok) = Inl failure"
  shows "\<exists>td resp. auth_callback env q = (Some td, resp) \<and>
           td_userId td = uid \<and>
           td_accessToken td = tok \<and>
           td_expiresAt td = shortExpiresAt (now_exchanged env) (expires_in tr) \<and>
           (case findOneAndUpdate env td of
              None \<Rightarrow> status resp = 200 \<and>
                       obj_get (body resp) ''success'' = JBool True \<and>
                       obj_get (body resp) ''expiresAt'' =
                         nullable_date (shortExpiresAt (now_exchanged env) (expires_in tr))
            | Some error \<Rightarrow> resp = callback_failure error)"
proof -
  define expiry where "expiry = shortExpiresAt (now_exchanged env) (expires_in tr)"
  define td where
    "td = \<lparr>td_userId = uid, td_accessToken = tok, td_expiresAt = expiry,
           td_tokenType = or_default (token_type tr) ''Bearer'',
           td_adAccountId = discoverAdAccount env tok\<rparr>"
  have kept: "longLived env tok expiry = (tok, expiry)"
    using assms(10) by (simp add: longLived_def)
  have run: "auth_callback env q =
      (Some td,
       case findOneAndUpdate env td of
         None \<Rightarrow>
           \<lparr>status = 200,
            body = [(''success'', JBool True), (''message'', JStr ''Authentication successful''),
                    (''userId'', uid), (''expiresAt'', nullable_date expiry)]\<rparr>
       | Some error \<Rightarrow> callback_failure error)"
    using assms(1-9) kept
    by (simp add: auth_callback_def truthy_str_def template_def td_def expiry_def
          split: option.splits)
  show ?thesis
    unfolding run
    by (cases "findOneAndUpdate env td") (simp_all add: td_def expiry_def obj_get_def)
qed

theorem callback_tolerates_failed_upgrade_witness:
  "auth_callback
     (example_oauth_env (Inl \<lparr>message = ''Request failed with status code 400'',
                             response_message = Some (Some ''Invalid OAuth access token'')\<rparr>))
     example_callback_query =
   (Some \<lparr>td_userId = JStr ''abc'', td_accessToken = ''short'', td_expiresAt = Some 3601000,
          td_tokenType = ''Bearer'', td_adAccountId = Some ''act_111''\<rparr>,
    \<lparr>status = 200,
     body = [(''success'', JBool True), (''message'', JStr ''Authentication successful''),
             (''userId'', JStr ''abc''), (''expiresAt'', JDate 3601000)]\<rparr>)"
  using callback_tolerates_failed_upgrade
    [where env = "example_oauth_env (Inl \<lparr>message = ''Request failed with status code 400'',
                             response_message = Some (Some ''Invalid OAuth access token'')\<rparr>)"
       and q = example_callback_query and code = "''c0de''" and st = "''eyJ1c2VySWQiOiJhYmMifQ==''"
       and uid = "JStr ''abc''" and tok = "''short''"
       and tr = "\<lparr>access_token = Some ''short'', expires_in = Some 3600, token_type = None\<rparr>"
       and failure = "\<lparr>message = ''Request failed with status code 400'',
                             response_message = Some (Some ''Invalid OAuth access token'')\<rparr>"]
    example_state
  by (simp add: auth_callback_def longLived_def example_oauth_env_def example_callback_query_def
        example_config_def truthy_str_def template_def tokenParams_def longLivedParams_def
        obj_get_def shortExpiresAt_def discoverAdAccount_def or_default_def nullable_date_def
        str_val_def)

end
